theory Spec2Isabelle
  imports Complex_Main
begin

section \<open>Common conventions\<close>

text \<open>
  Every reading of the wall clock (\<^verbatim>\<open>time.time()\<close>) is an explicit argument of the
  function that takes it, as a \<^typ>\<open>real\<close>; formatted dates are strings. Locks are
  not modelled: every method body runs as one atomic step. Console output
  (\<^verbatim>\<open>print\<close>) is left out. A call that raises gives the exception (\<open>Inl\<close>) in
  place of its result; the object it left half updated is not given.
\<close>

datatype py_error = ZeroDivisionError | IndexError | KeyError | ValueError

section \<open>The ring buffer (\<^verbatim>\<open>src/memory_management.py\<close>, class \<^verbatim>\<open>CircularFrameBuffer\<close>)\<close>

text \<open>
  Python's list indexing: an index from \<open>-len\<close> up to \<open>len - 1\<close> is in range, a
  negative one counting from the end; any other index raises \<^verbatim>\<open>IndexError\<close>.
\<close>

definition py_index :: "nat \<Rightarrow> int \<Rightarrow> py_error + nat" where
  "py_index len i =
     (if 0 \<le> i \<and> i < int len then Inr (nat i)
      else if i < 0 \<and> - int len \<le> i then Inr (nat (int len + i))
      else Inl IndexError)"

definition py_getitem :: "'a list \<Rightarrow> int \<Rightarrow> py_error + 'a" where
  "py_getitem xs i =
     (case py_index (length xs) i of Inl e \<Rightarrow> Inl e | Inr j \<Rightarrow> Inr (xs ! j))"

definition py_setitem :: "'a list \<Rightarrow> int \<Rightarrow> 'a \<Rightarrow> py_error + 'a list" where
  "py_setitem xs i v =
     (case py_index (length xs) i of Inl e \<Rightarrow> Inl e | Inr j \<Rightarrow> Inr (xs[j := v]))"

text \<open>Python's \<^verbatim>\<open>a % b\<close> on integers: the sign of the divisor, an error when it is zero.\<close>

definition py_mod :: "int \<Rightarrow> int \<Rightarrow> py_error + int" where
  "py_mod a b = (if b = 0 then Inl ZeroDivisionError else Inr (a mod b))"

text \<open>
  The attribute \<^verbatim>\<open>size\<close> is named \<open>count\<close> here, \<open>size\<close> being taken. A slot of
  the buffer holds \<^verbatim>\<open>None\<close> or a frame. Frames are copied on writing, so that frames
  are values.
\<close>

record 'a CircularFrameBuffer =
  capacity :: int
  buffer :: "'a option list"
  head :: int
  tail :: int
  count :: int
  write_count :: int
  read_count :: int
  overflow_count :: int

text \<open>
  The constructor assigns the fields and checks nothing: no statement of it can
  raise for an integer capacity. \<^verbatim>\<open>[None] * capacity\<close> is the empty list when the
  capacity is zero or negative.
\<close>

definition CircularFrameBuffer_init :: "int \<Rightarrow> 'a CircularFrameBuffer" where
  "CircularFrameBuffer_init cap =
     \<lparr>capacity = cap, buffer = replicate (nat cap) None, head = 0, tail = 0, count = 0,
      write_count = 0, read_count = 0, overflow_count = 0\<rparr>"

text \<open>
  \<^verbatim>\<open>write(frame)\<close>, named \<open>write_frame\<close> since \<open>write\<close> is a keyword; the
  returned value is always \<^verbatim>\<open>True\<close>, so that only the buffer after the call is
  given.
\<close>

definition write_frame :: "'a \<Rightarrow> 'a CircularFrameBuffer \<Rightarrow> py_error + 'a CircularFrameBuffer" where
  "write_frame frame fb =
     (case (if count fb = capacity fb then
              (case py_mod (tail fb + 1) (capacity fb) of
                 Inl e \<Rightarrow> Inl e
               | Inr t \<Rightarrow>
                   Inr (fb\<lparr>overflow_count := overflow_count fb + 1, tail := t,
                           count := count fb - 1\<rparr>))
            else Inr fb) of
        Inl e \<Rightarrow> Inl e
      | Inr fb1 \<Rightarrow>
          (case py_setitem (buffer fb1) (head fb1) (Some frame) of
             Inl e \<Rightarrow> Inl e
           | Inr b \<Rightarrow>
               (case py_mod (head fb1 + 1) (capacity fb1) of
                  Inl e \<Rightarrow> Inl e
                | Inr h \<Rightarrow>
                    Inr (fb1\<lparr>buffer := b, head := h, count := count fb1 + 1,
                             write_count := write_count fb1 + 1\<rparr>))))"

text \<open>\<^verbatim>\<open>read()\<close>: the returned frame, \<open>None\<close> when the buffer is empty, and the buffer.\<close>

definition read ::
  "'a CircularFrameBuffer \<Rightarrow> py_error + ('a option \<times> 'a CircularFrameBuffer)" where
  "read fb =
     (if count fb = 0 then Inr (None, fb)
      else
        case py_getitem (buffer fb) (tail fb) of
          Inl e \<Rightarrow> Inl e
        | Inr frame \<Rightarrow>
            (case py_setitem (buffer fb) (tail fb) None of
               Inl e \<Rightarrow> Inl e
             | Inr b \<Rightarrow>
                 (case py_mod (tail fb + 1) (capacity fb) of
                    Inl e \<Rightarrow> Inl e
                  | Inr t \<Rightarrow>
                      Inr (frame,
                           fb\<lparr>buffer := b, tail := t, count := count fb - 1,
                              read_count := read_count fb + 1\<rparr>))))"

definition peek :: "'a CircularFrameBuffer \<Rightarrow> py_error + 'a option" where
  "peek fb = (if count fb = 0 then Inr None else py_getitem (buffer fb) (tail fb))"

definition get_latest :: "'a CircularFrameBuffer \<Rightarrow> py_error + 'a option" where
  "get_latest fb =
     (if count fb = 0 then Inr None
      else
        case py_mod (head fb - 1) (capacity fb) of
          Inl e \<Rightarrow> Inl e
        | Inr latest_idx \<Rightarrow> py_getitem (buffer fb) latest_idx)"

text \<open>Consecutive calls: the frames of a list written in order, and \<open>n\<close> reads.\<close>

fun write_all :: "'a list \<Rightarrow> 'a CircularFrameBuffer \<Rightarrow> py_error + 'a CircularFrameBuffer" where
  "write_all [] fb = Inr fb"
| "write_all (frame # frames) fb =
     (case write_frame frame fb of Inl e \<Rightarrow> Inl e | Inr fb' \<Rightarrow> write_all frames fb')"

fun read_n ::
  "nat \<Rightarrow> 'a CircularFrameBuffer \<Rightarrow> py_error + ('a option list \<times> 'a CircularFrameBuffer)" where
  "read_n 0 fb = Inr ([], fb)"
| "read_n (Suc n) fb =
     (case read fb of
        Inl e \<Rightarrow> Inl e
      | Inr (frame, fb') \<Rightarrow>
          (case read_n n fb' of
             Inl e \<Rightarrow> Inl e
           | Inr (frames, fb'') \<Rightarrow> Inr (frame # frames, fb'')))"

text \<open>
  The frames waiting in the buffer, oldest first: the slots from \<^verbatim>\<open>tail\<close> on, as
  many as \<^verbatim>\<open>size\<close> says.
\<close>

definition queued :: "'a CircularFrameBuffer \<Rightarrow> 'a option list" where
  "queued fb =
     map (\<lambda>i. buffer fb ! nat ((tail fb + int i) mod capacity fb)) [0 ..< nat (count fb)]"

text \<open>
  The representation invariant of a buffer of capacity \<open>N\<close> that holds the frames
  \<open>q\<close>, oldest first.
\<close>

definition ring_holds :: "int \<Rightarrow> 'a list \<Rightarrow> 'a CircularFrameBuffer \<Rightarrow> bool" where
  "ring_holds N q fb =
     (capacity fb = N \<and> length (buffer fb) = nat N
      \<and> 0 \<le> tail fb \<and> tail fb < N
      \<and> count fb = int (length q) \<and> int (length q) \<le> N
      \<and> head fb = (tail fb + int (length q)) mod N
      \<and> (\<forall>i < length q. buffer fb ! nat ((tail fb + int i) mod N) = Some (q ! i)))"

text \<open>The last \<open>N\<close> elements of a list.\<close>

definition last_n :: "int \<Rightarrow> 'a list \<Rightarrow> 'a list" where
  "last_n N xs = drop (length xs - nat N) xs"

section \<open>The bounded cache (\<^verbatim>\<open>src/memory_management.py\<close>, class \<^verbatim>\<open>LRUCache\<close>)\<close>

text \<open>
  An \<^verbatim>\<open>OrderedDict\<close> is the list of its items in their order, the first item being
  the oldest; a key occurs once. \<^verbatim>\<open>move_to_end(key)\<close> and \<^verbatim>\<open>popitem(last=False)\<close>
  raise \<^verbatim>\<open>KeyError\<close> on an absent key and on an empty dictionary; assigning to a key
  keeps the place of a key that is present and appends a new one.
\<close>

definition move_to_end :: "'k \<Rightarrow> ('k \<times> 'v) list \<Rightarrow> py_error + ('k \<times> 'v) list" where
  "move_to_end key od =
     (case map_of od key of
        None \<Rightarrow> Inl KeyError
      | Some v \<Rightarrow> Inr (filter (\<lambda>kv. fst kv \<noteq> key) od @ [(key, v)]))"

definition popitem_first ::
  "('k \<times> 'v) list \<Rightarrow> py_error + (('k \<times> 'v) \<times> ('k \<times> 'v) list)" where
  "popitem_first od = (case od of [] \<Rightarrow> Inl KeyError | kv # rest \<Rightarrow> Inr (kv, rest))"

definition od_setitem :: "'k \<Rightarrow> 'v \<Rightarrow> ('k \<times> 'v) list \<Rightarrow> ('k \<times> 'v) list" where
  "od_setitem key val od =
     (case map_of od key of
        None \<Rightarrow> od @ [(key, val)]
      | Some old \<Rightarrow> map (\<lambda>kv. if fst kv = key then (key, val) else kv) od)"

record ('k, 'v) LRUCache =
  lru_capacity :: int
  cache :: "('k \<times> 'v) list"
  hit_count :: int
  miss_count :: int
  eviction_count :: int
  access_count :: int

text \<open>The constructor assigns the fields and checks nothing.\<close>

definition LRUCache_init :: "int \<Rightarrow> ('k, 'v) LRUCache" where
  "LRUCache_init cap =
     \<lparr>lru_capacity = cap, cache = [], hit_count = 0, miss_count = 0, eviction_count = 0,
      access_count = 0\<rparr>"

text \<open>\<^verbatim>\<open>get(key)\<close>: the returned value, \<open>None\<close> on a miss, and the cache.\<close>

definition get :: "'k \<Rightarrow> ('k, 'v) LRUCache \<Rightarrow> py_error + ('v option \<times> ('k, 'v) LRUCache)" where
  "get key c =
     (let c1 = c\<lparr>access_count := access_count c + 1\<rparr> in
      case map_of (cache c1) key of
        Some v \<Rightarrow>
          (case move_to_end key (cache c1) of
             Inl e \<Rightarrow> Inl e
           | Inr od \<Rightarrow> Inr (Some v, c1\<lparr>cache := od, hit_count := hit_count c1 + 1\<rparr>))
      | None \<Rightarrow> Inr (None, c1\<lparr>miss_count := miss_count c1 + 1\<rparr>))"

definition put :: "'k \<Rightarrow> 'v \<Rightarrow> ('k, 'v) LRUCache \<Rightarrow> py_error + ('k, 'v) LRUCache" where
  "put key val c =
     (case (case map_of (cache c) key of
              Some old \<Rightarrow>
                (case move_to_end key (cache c) of
                   Inl e \<Rightarrow> Inl e
                 | Inr od \<Rightarrow> Inr (c\<lparr>cache := od\<rparr>))
            | None \<Rightarrow>
                if int (length (cache c)) \<ge> lru_capacity c then
                  (case popitem_first (cache c) of
                     Inl e \<Rightarrow> Inl e
                   | Inr (kv, rest) \<Rightarrow>
                       Inr (c\<lparr>cache := rest, eviction_count := eviction_count c + 1\<rparr>))
                else Inr c) of
        Inl e \<Rightarrow> Inl e
      | Inr c1 \<Rightarrow> Inr (c1\<lparr>cache := od_setitem key val (cache c1)\<rparr>))"

text \<open>Sequences of \<^verbatim>\<open>put\<close> and \<^verbatim>\<open>get\<close> calls; the values that \<^verbatim>\<open>get\<close> returns are dropped.\<close>

datatype ('k, 'v) cache_op = Get 'k | Put 'k 'v

fun cache_step :: "('k, 'v) cache_op \<Rightarrow> ('k, 'v) LRUCache \<Rightarrow> py_error + ('k, 'v) LRUCache" where
  "cache_step (Get key) c = (case get key c of Inl e \<Rightarrow> Inl e | Inr (r, c') \<Rightarrow> Inr c')"
| "cache_step (Put key val) c = put key val c"

fun cache_run :: "('k, 'v) cache_op list \<Rightarrow> ('k, 'v) LRUCache \<Rightarrow> py_error + ('k, 'v) LRUCache" where
  "cache_run [] c = Inr c"
| "cache_run (opn # ops) c =
     (case cache_step opn c of Inl e \<Rightarrow> Inl e | Inr c' \<Rightarrow> cache_run ops c')"

text \<open>
  When a key was last touched, in the words of the specification: a \<^verbatim>\<open>put\<close> touches
  its key, a \<^verbatim>\<open>get\<close> touches its key when it is a hit. \<open>touched_key\<close> is the key an
  operation touches in a cache; \<open>last_touch\<close> numbers the operations of a run from
  \<open>t + 1\<close> on and maps every key to the number of the last operation that touched it,
  starting from the map \<open>stamp\<close>.
\<close>

fun touched_key :: "('k, 'v) cache_op \<Rightarrow> ('k, 'v) LRUCache \<Rightarrow> 'k option" where
  "touched_key (Put key val) c = Some key"
| "touched_key (Get key) c = (case map_of (cache c) key of None \<Rightarrow> None | Some v \<Rightarrow> Some key)"

fun last_touch ::
  "('k, 'v) cache_op list \<Rightarrow> nat \<Rightarrow> ('k \<Rightarrow> nat) \<Rightarrow> ('k, 'v) LRUCache \<Rightarrow> 'k \<Rightarrow> nat" where
  "last_touch [] t stamp c = stamp"
| "last_touch (opn # ops) t stamp c =
     (case cache_step opn c of
        Inl e \<Rightarrow> stamp
      | Inr c' \<Rightarrow>
          last_touch ops (Suc t)
            (case touched_key opn c of None \<Rightarrow> stamp | Some k \<Rightarrow> stamp(k := Suc t)) c')"

text \<open>
  The representation invariant of the cache at time \<open>t\<close>: at most \<open>C\<close> keys, each
  stored once, in the order of their last touch.
\<close>

definition lru_inv :: "int \<Rightarrow> nat \<Rightarrow> ('k \<Rightarrow> nat) \<Rightarrow> ('k, 'v) LRUCache \<Rightarrow> bool" where
  "lru_inv C t stamp c =
     (lru_capacity c = C \<and> int (length (cache c)) \<le> C
      \<and> distinct (map fst (cache c))
      \<and> sorted_wrt (<) (map stamp (map fst (cache c)))
      \<and> (\<forall>k \<in> fst ` set (cache c). stamp k \<le> t))"

section \<open>The finite state machine (\<^verbatim>\<open>src/state_machine.py\<close>)\<close>

datatype SystemState = IDLE | MONITORING | ALERT | ALARM | COOLDOWN

text \<open>The \<^verbatim>\<open>.value\<close> of the enumeration members.\<close>

fun state_value :: "SystemState \<Rightarrow> string" where
  "state_value IDLE = ''IDLE''"
| "state_value MONITORING = ''MONITORING''"
| "state_value ALERT = ''ALERT''"
| "state_value ALARM = ''ALARM''"
| "state_value COOLDOWN = ''COOLDOWN''"

text \<open>\<^verbatim>\<open>StateTransition.VALID_TRANSITIONS\<close>, a dictionary from a state to a list.\<close>

definition VALID_TRANSITIONS :: "SystemState \<rightharpoonup> SystemState list" where
  "VALID_TRANSITIONS =
     [IDLE \<mapsto> [MONITORING],
      MONITORING \<mapsto> [ALERT, IDLE],
      ALERT \<mapsto> [ALARM, MONITORING],
      ALARM \<mapsto> [COOLDOWN],
      COOLDOWN \<mapsto> [MONITORING, IDLE]]"

definition is_valid_transition :: "SystemState \<Rightarrow> SystemState \<Rightarrow> bool" where
  "is_valid_transition from_state to_state =
     (case VALID_TRANSITIONS from_state of
        None \<Rightarrow> False
      | Some targets \<Rightarrow> List.member targets to_state)"

text \<open>One dictionary of \<^verbatim>\<open>state_history\<close>.\<close>

record history_entry =
  entry_state :: string
  entry_timestamp :: real
  entry_datetime :: string
  entry_reason :: string

text \<open>
  The three readings \<^verbatim>\<open>_record_state_entry\<close> takes, in the order it takes them:
  \<^verbatim>\<open>time.time()\<close> for the entry, \<^verbatim>\<open>datetime.now()\<close> formatted, and
  \<^verbatim>\<open>time.time()\<close> for \<^verbatim>\<open>state_enter_time\<close>.
\<close>

type_synonym entry_clock = "real \<times> string \<times> real"

text \<open>
  A callback is an arbitrary callable; it is modelled as a transformer of the
  surroundings \<^typ>\<open>'w\<close> of the machine.
\<close>

record 'w StateMachine =
  current_state :: SystemState
  previous_state :: "SystemState option"
  state_enter_time :: real
  state_history :: "history_entry list"
  transition_count :: int
  state_callbacks :: "SystemState \<rightharpoonup> ('w \<Rightarrow> 'w)"

definition record_state_entry ::
  "SystemState \<Rightarrow> string \<Rightarrow> entry_clock \<Rightarrow> 'w StateMachine \<Rightarrow> 'w StateMachine" where
  "record_state_entry st reason ck sm =
     (case ck of (ts, dt, te) \<Rightarrow>
        sm\<lparr>state_history := state_history sm @
              [\<lparr>entry_state = state_value st, entry_timestamp = ts,
                entry_datetime = dt, entry_reason = reason\<rparr>],
           state_enter_time := te\<rparr>)"

text \<open>
  \<^verbatim>\<open>StateMachine.__init__\<close>: \<open>t0\<close> is the reading stored in
  \<^verbatim>\<open>state_enter_time\<close> before the initial state is recorded.
\<close>

definition StateMachine_init ::
  "SystemState \<Rightarrow> real \<Rightarrow> entry_clock \<Rightarrow> 'w StateMachine" where
  "StateMachine_init initial_state t0 ck =
     record_state_entry initial_state [] ck
       \<lparr>current_state = initial_state, previous_state = None,
        state_enter_time = t0, state_history = [], transition_count = 0,
        state_callbacks = Map.empty\<rparr>"

definition register_callback ::
  "SystemState \<Rightarrow> ('w \<Rightarrow> 'w) \<Rightarrow> 'w StateMachine \<Rightarrow> 'w StateMachine" where
  "register_callback st callback sm =
     sm\<lparr>state_callbacks := (state_callbacks sm)(st \<mapsto> callback)\<rparr>"

text \<open>
  \<^verbatim>\<open>StateMachine.transition_to\<close>: the returned boolean, the machine and the
  surroundings after the call.
\<close>

definition transition_to ::
  "SystemState \<Rightarrow> string \<Rightarrow> entry_clock \<Rightarrow> 'w StateMachine \<Rightarrow> 'w \<Rightarrow>
     bool \<times> 'w StateMachine \<times> 'w" where
  "transition_to new_state reason ck sm w =
     (if \<not> is_valid_transition (current_state sm) new_state then (False, sm, w)
      else
        let sm1 = sm\<lparr>previous_state := Some (current_state sm),
                     current_state := new_state,
                     transition_count := transition_count sm + 1\<rparr>;
            sm2 = record_state_entry new_state reason ck sm1;
            w' = (case state_callbacks sm2 new_state of
                    None \<Rightarrow> w
                  | Some callback \<Rightarrow> callback w)
        in (True, sm2, w'))"

definition get_current_state :: "'w StateMachine \<Rightarrow> SystemState" where
  "get_current_state sm = current_state sm"

definition get_time_in_state :: "real \<Rightarrow> 'w StateMachine \<Rightarrow> real" where
  "get_time_in_state now sm = now - state_enter_time sm"

text \<open>A sequence of \<^verbatim>\<open>transition_to\<close> calls, each with its arguments and readings.\<close>

fun transition_seq ::
  "(SystemState \<times> string \<times> entry_clock) list \<Rightarrow> 'w StateMachine \<Rightarrow> 'w \<Rightarrow>
     'w StateMachine \<times> 'w" where
  "transition_seq [] sm w = (sm, w)"
| "transition_seq ((target, reason, ck) # calls) sm w =
     (case transition_to target reason ck sm w of
        (ok, sm', w') \<Rightarrow> transition_seq calls sm' w')"

text \<open>
  The transition table in the words of the specification: Idle to Monitoring;
  Monitoring to Alert or Idle; Alert to Alarm or Monitoring; Alarm to Cooldown;
  Cooldown to Monitoring or Idle.
\<close>

fun spec_successors :: "SystemState \<Rightarrow> SystemState set" where
  "spec_successors IDLE = {MONITORING}"
| "spec_successors MONITORING = {ALERT, IDLE}"
| "spec_successors ALERT = {ALARM, MONITORING}"
| "spec_successors ALARM = {COOLDOWN}"
| "spec_successors COOLDOWN = {MONITORING, IDLE}"

section \<open>The alarm with its cooldown timer (\<^verbatim>\<open>src/state_machine.py\<close>)\<close>

text \<open>
  The part of the configuration dictionary that the timer reads with
  \<^verbatim>\<open>config.get(key, default)\<close>: a key that is absent is \<open>None\<close>. The sound file
  and the duration only select and time the sound that is played on another thread;
  that thread, which clears \<^verbatim>\<open>is_active\<close> when the sound ends, is outside the model.
\<close>

record alarm_config =
  cfg_enabled :: "bool option"
  cfg_cooldown_period :: "real option"

record AlarmSystem =
  enabled :: bool
  cooldown_period :: real
  is_active :: bool
  last_trigger_time :: real
  trigger_count :: int

definition AlarmSystem_init :: "alarm_config \<Rightarrow> AlarmSystem" where
  "AlarmSystem_init config =
     \<lparr>enabled = (case cfg_enabled config of None \<Rightarrow> True | Some b \<Rightarrow> b),
      cooldown_period = (case cfg_cooldown_period config of None \<Rightarrow> 10 | Some c \<Rightarrow> c),
      is_active = False, last_trigger_time = 0, trigger_count = 0\<rparr>"

definition can_trigger :: "real \<Rightarrow> AlarmSystem \<Rightarrow> bool" where
  "can_trigger current_time al =
     (if \<not> enabled al then False
      else
        let time_since_last = current_time - last_trigger_time al
        in time_since_last \<ge> cooldown_period al)"

text \<open>
  \<^verbatim>\<open>AlarmSystem.trigger\<close> reads the clock twice: \<open>t_check\<close> inside
  \<^verbatim>\<open>can_trigger\<close>, then \<open>t_stamp\<close> for \<^verbatim>\<open>last_trigger_time\<close>.
\<close>

definition trigger :: "real \<Rightarrow> real \<Rightarrow> AlarmSystem \<Rightarrow> AlarmSystem" where
  "trigger t_check t_stamp al =
     (if \<not> can_trigger t_check al then al
      else al\<lparr>is_active := True, last_trigger_time := t_stamp,
              trigger_count := trigger_count al + 1\<rparr>)"

section \<open>Signal primitives (\<^verbatim>\<open>src/motion_detection.py\<close>, class \<^verbatim>\<open>BooleanLogic\<close>)\<close>

definition AND :: "bool \<Rightarrow> bool \<Rightarrow> bool" where
  "AND a b = (a \<and> b)"

definition OR :: "bool \<Rightarrow> bool \<Rightarrow> bool" where
  "OR a b = (a \<or> b)"

definition alarm_condition :: "bool \<Rightarrow> bool \<Rightarrow> bool \<Rightarrow> bool" where
  "alarm_condition motion_detected face_unknown system_armed =
     (let detection = OR motion_detected face_unknown;
          alarm = AND detection system_armed
      in alarm)"

text \<open>
  \<^verbatim>\<open>threshold_comparison(value, threshold, operation)\<close>; an operation string that is
  none of the five known ones gives \<open>False\<close>.
\<close>

definition threshold_comparison :: "real \<Rightarrow> real \<Rightarrow> string \<Rightarrow> bool" where
  "threshold_comparison val threshold operation =
     (if operation = ''greater'' then val > threshold
      else if operation = ''less'' then val < threshold
      else if operation = ''equal'' then val = threshold
      else if operation = ''greater_equal'' then val \<ge> threshold
      else if operation = ''less_equal'' then val \<le> threshold
      else False)"

section \<open>The motion detector (\<^verbatim>\<open>src/motion_detection.py\<close>)\<close>

text \<open>
  The image operations come from the OpenCV library and are parameters of the model:
  \<^typ>\<open>'f\<close> is a camera frame, \<^typ>\<open>'g\<close> a grey image and \<^typ>\<open>'c\<close> a contour.
  \<open>cv_preprocess k\<close> stands for the grey conversion followed by the Gaussian blur
  with kernel width \<open>k\<close>, \<open>cv_threshold t\<close> for the binary threshold at \<open>t\<close>, and
  \<open>cv_dilate n\<close> for \<open>n\<close> dilations with the 5 by 5 kernel.
\<close>

record ('f, 'g, 'c) cv2 =
  cv_preprocess :: "int \<Rightarrow> 'f \<Rightarrow> 'g"
  cv_absdiff :: "'g \<Rightarrow> 'g \<Rightarrow> 'g"
  cv_threshold :: "real \<Rightarrow> 'g \<Rightarrow> 'g"
  cv_dilate :: "int \<Rightarrow> 'g \<Rightarrow> 'g"
  cv_findContours :: "'g \<Rightarrow> 'c list"
  cv_contourArea :: "'c \<Rightarrow> real"

record motion_config =
  cfg_threshold :: "real option"
  cfg_min_contour_area :: "real option"
  cfg_blur_kernel_size :: "int option"
  cfg_dilation_iterations :: "int option"

record 'g MotionDetector =
  threshold :: real
  min_contour_area :: real
  blur_kernel_size :: int
  dilation_iterations :: int
  previous_frame :: "'g option"
  total_frames_processed :: int
  total_processing_time :: real
  motion_detected_count :: int

definition MotionDetector_init :: "motion_config \<Rightarrow> 'g MotionDetector" where
  "MotionDetector_init config =
     \<lparr>threshold = (case cfg_threshold config of None \<Rightarrow> 25 | Some t \<Rightarrow> t),
      min_contour_area = (case cfg_min_contour_area config of None \<Rightarrow> 500 | Some a \<Rightarrow> a),
      blur_kernel_size = (case cfg_blur_kernel_size config of None \<Rightarrow> 21 | Some k \<Rightarrow> k),
      dilation_iterations = (case cfg_dilation_iterations config of None \<Rightarrow> 2 | Some n \<Rightarrow> n),
      previous_frame = None, total_frames_processed = 0, total_processing_time = 0,
      motion_detected_count = 0\<rparr>"

text \<open>The loop of \<^verbatim>\<open>filter_contours\<close>, with the list \<^verbatim>\<open>filtered\<close> built so far.\<close>

fun filter_contours_loop ::
  "('c \<Rightarrow> real) \<Rightarrow> real \<Rightarrow> 'c list \<Rightarrow> 'c list \<Rightarrow> 'c list" where
  "filter_contours_loop area_of min_area [] filtered = filtered"
| "filter_contours_loop area_of min_area (contour # rest) filtered =
     (let area = area_of contour in
      if threshold_comparison area min_area ''greater''
      then filter_contours_loop area_of min_area rest (filtered @ [contour])
      else filter_contours_loop area_of min_area rest filtered)"

definition filter_contours ::
  "('f, 'g, 'c) cv2 \<Rightarrow> 'g MotionDetector \<Rightarrow> 'c list \<Rightarrow> 'c list" where
  "filter_contours cv md contours =
     filter_contours_loop (cv_contourArea cv) (min_contour_area md) contours []"

text \<open>
  \<^verbatim>\<open>detect_motion\<close>: the decision, the surviving contours and the detector after the
  call; \<open>start_time\<close> and \<open>end_time\<close> are its two clock readings. The first frame
  returns before the counters are touched.
\<close>

definition detect_motion ::
  "('f, 'g, 'c) cv2 \<Rightarrow> real \<Rightarrow> real \<Rightarrow> 'f \<Rightarrow> 'g MotionDetector \<Rightarrow>
     (bool \<times> 'c list) \<times> 'g MotionDetector" where
  "detect_motion cv start_time end_time frame md =
     (let processed = cv_preprocess cv (blur_kernel_size md) frame in
      case previous_frame md of
        None \<Rightarrow> ((False, []), md\<lparr>previous_frame := Some processed\<rparr>)
      | Some previous \<Rightarrow>
          let frame_diff = cv_absdiff cv processed previous;
              md1 = md\<lparr>previous_frame := Some processed\<rparr>;
              thresh = cv_threshold cv (threshold md1) frame_diff;
              morphed = cv_dilate cv (dilation_iterations md1) thresh;
              contours = cv_findContours cv morphed;
              filtered_contours = filter_contours cv md1 contours;
              motion_detected = (length filtered_contours > 0);
              processing_time = end_time - start_time
          in ((motion_detected, filtered_contours),
              md1\<lparr>total_frames_processed := total_frames_processed md1 + 1,
                  total_processing_time := total_processing_time md1 + processing_time,
                  motion_detected_count :=
                    (if motion_detected then motion_detected_count md1 + 1
                     else motion_detected_count md1)\<rparr>))"

text \<open>
  A stand-in for the library in the examples: an image is the list of the areas of
  its regions, and a contour is its own area.
\<close>

definition areas_cv2 :: "(real list, real list, real) cv2" where
  "areas_cv2 =
     \<lparr>cv_preprocess = (\<lambda>k frame. frame), cv_absdiff = (\<lambda>cur prev. cur),
      cv_threshold = (\<lambda>t img. img), cv_dilate = (\<lambda>n img. img),
      cv_findContours = (\<lambda>img. img), cv_contourArea = (\<lambda>c. c)\<rparr>"

definition default_motion_config :: motion_config where
  "default_motion_config =
     \<lparr>cfg_threshold = None, cfg_min_contour_area = None,
      cfg_blur_kernel_size = None, cfg_dilation_iterations = None\<rparr>"

section \<open>The temporal stabilizer (\<^verbatim>\<open>src/face_recognition_module.py\<close>)\<close>

text \<open>
  \<^verbatim>\<open>numpy.median\<close> of a list of integers: the middle element of the sorted list, or
  the mean of the two middle elements when the length is even; of the empty list it
  is not a number (\<open>None\<close>). On counts of faces the floating-point result is exact,
  so a rational stands for it.
\<close>

definition np_median :: "int list \<Rightarrow> rat option" where
  "np_median xs =
     (let s = sort xs; n = length s in
      if n = 0 then None
      else if odd n then Some (of_int (s ! (n div 2)))
      else Some ((of_int (s ! (n div 2 - 1)) + of_int (s ! (n div 2))) / 2))"

text \<open>Python's \<^verbatim>\<open>int()\<close> of a number: rounding toward zero.\<close>

definition py_int :: "rat \<Rightarrow> int" where
  "py_int r = (if r \<ge> 0 then \<lfloor>r\<rfloor> else \<lceil>r\<rceil>)"

type_synonym location = "int \<times> int \<times> int \<times> int"

record frame_data =
  fd_names :: "string list"
  fd_locations :: "location list"
  fd_count :: int

text \<open>The fields of \<^verbatim>\<open>FaceRecognizer\<close> that the stabilizer uses.\<close>

record FaceRecognizer =
  face_history :: "frame_data list"
  history_length :: int
  min_confidence_frames :: int
  last_stable_faces :: "location list"
  last_stable_names :: "string list"

definition FaceRecognizer_init :: FaceRecognizer where
  "FaceRecognizer_init =
     \<lparr>face_history = [], history_length = 5, min_confidence_frames = 3,
      last_stable_faces = [], last_stable_names = []\<rparr>"

text \<open>
  The first two statements of \<^verbatim>\<open>_apply_temporal_smoothing\<close>: the current detection is
  appended to the history, and the oldest entry is popped when the history has
  grown beyond \<^verbatim>\<open>history_length\<close>. The result is the window that is voted on.
\<close>

definition observation :: "string list \<times> location list \<Rightarrow> frame_data" where
  "observation obs =
     \<lparr>fd_names = fst obs, fd_locations = snd obs, fd_count = int (length (fst obs))\<rparr>"

definition push_history :: "string list \<Rightarrow> location list \<Rightarrow> FaceRecognizer \<Rightarrow> frame_data list" where
  "push_history names locations fr =
     (let h1 = face_history fr @ [observation (names, locations)]
      in if int (length h1) > history_length fr then tl h1 else h1)"

text \<open>
  \<^verbatim>\<open>_apply_temporal_smoothing(names, locations)\<close>: the returned pair and the
  recognizer after the call. \<^verbatim>\<open>int()\<close> of not-a-number raises \<^verbatim>\<open>ValueError\<close>.
\<close>

definition apply_temporal_smoothing ::
  "string list \<Rightarrow> location list \<Rightarrow> FaceRecognizer \<Rightarrow>
     py_error + ((string list \<times> location list) \<times> FaceRecognizer)" where
  "apply_temporal_smoothing names locations fr =
     (let fr1 = fr\<lparr>face_history := push_history names locations fr\<rparr>
      in if int (length (face_history fr1)) < min_confidence_frames fr1 then
           Inr ((names, locations),
                fr1\<lparr>last_stable_faces := locations, last_stable_names := names\<rparr>)
         else
           let face_counts = map fd_count (face_history fr1) in
           case np_median face_counts of
             None \<Rightarrow> Inl ValueError
           | Some m \<Rightarrow>
               let stable_count = py_int m;
                   current_count = int (length names)
               in if \<bar>current_count - stable_count\<bar> \<le> 1 then
                    Inr ((names, locations),
                         fr1\<lparr>last_stable_faces := locations, last_stable_names := names\<rparr>)
                  else
                    Inr ((last_stable_names fr1, last_stable_faces fr1), fr1))"

text \<open>
  A run of the stabilizer over a sequence of raw observations, collecting the
  returned pairs.
\<close>

fun smoothing_run ::
  "(string list \<times> location list) list \<Rightarrow> FaceRecognizer \<Rightarrow>
     py_error + ((string list \<times> location list) list \<times> FaceRecognizer)" where
  "smoothing_run [] fr = Inr ([], fr)"
| "smoothing_run ((names, locations) # rest) fr =
     (case apply_temporal_smoothing names locations fr of
        Inl e \<Rightarrow> Inl e
      | Inr (out, fr') \<Rightarrow>
          (case smoothing_run rest fr' of
             Inl e \<Rightarrow> Inl e
           | Inr (outs, fr'') \<Rightarrow> Inr (out # outs, fr'')))"

text \<open>A raw observation of \<open>n\<close> faces, all at the same place, for the examples.\<close>

definition faces :: "nat \<Rightarrow> string list \<times> location list" where
  "faces n = (replicate n ''Detected'', replicate n (0, 10, 10, 0))"

section \<open>The driving control loop (\<^verbatim>\<open>main.py\<close>)\<close>

text \<open>
  The part of \<^verbatim>\<open>AntiTheftSystem\<close> that \<^verbatim>\<open>_handle_detection\<close> reads and writes. The
  logger, the event recorder, the file system and the notification system only
  receive records and are left out.
\<close>

record 'w AntiTheftSystem =
  state_machine :: "'w StateMachine"
  alarm_system :: AlarmSystem
  system_armed :: bool
  surroundings :: 'w

text \<open>
  The clock readings one call of \<^verbatim>\<open>_handle_detection\<close> can take, in order: the one
  of \<^verbatim>\<open>get_time_in_state\<close>, those of the first \<^verbatim>\<open>transition_to\<close>, the two of
  \<^verbatim>\<open>alarm_system.trigger()\<close>, and those of the transition to \<^verbatim>\<open>COOLDOWN\<close> that
  ends \<^verbatim>\<open>_trigger_alarm\<close>.
\<close>

record detection_clock =
  ck_time_in_state :: real
  ck_entry :: entry_clock
  ck_can_trigger :: real
  ck_trigger :: real
  ck_cooldown_entry :: entry_clock

text \<open>A call of \<^verbatim>\<open>self.state_machine.transition_to\<close> whose result is dropped.\<close>

definition do_transition ::
  "SystemState \<Rightarrow> string \<Rightarrow> entry_clock \<Rightarrow> 'w AntiTheftSystem \<Rightarrow> 'w AntiTheftSystem" where
  "do_transition target reason ck sys =
     (case transition_to target reason ck (state_machine sys) (surroundings sys) of
        (ok, sm', w') \<Rightarrow> sys\<lparr>state_machine := sm', surroundings := w'\<rparr>)"

definition trigger_alarm :: "detection_clock \<Rightarrow> 'w AntiTheftSystem \<Rightarrow> 'w AntiTheftSystem" where
  "trigger_alarm ck sys =
     (let sys1 = sys\<lparr>alarm_system :=
                   trigger (ck_can_trigger ck) (ck_trigger ck) (alarm_system sys)\<rparr>
      in do_transition COOLDOWN ''Alarm triggered'' (ck_cooldown_entry ck) sys1)"

text \<open>
  \<^verbatim>\<open>_handle_detection(alarm_trigger, motion_detected, unknown_face, frame)\<close>; the
  last three arguments only reach the log records and the saved image.
\<close>

definition handle_detection ::
  "bool \<Rightarrow> detection_clock \<Rightarrow> 'w AntiTheftSystem \<Rightarrow> 'w AntiTheftSystem" where
  "handle_detection alarm_trigger ck sys =
     (let cur = get_current_state (state_machine sys) in
      if alarm_trigger then
        (if cur = MONITORING then
           do_transition ALERT ''Threat detected'' (ck_entry ck) sys
         else if cur = ALERT then
           (if get_time_in_state (ck_time_in_state ck) (state_machine sys) > 2 then
              trigger_alarm ck (do_transition ALARM ''Confirmed threat'' (ck_entry ck) sys)
            else sys)
         else sys)
      else
        (if cur = ALERT then
           do_transition MONITORING ''False alarm'' (ck_entry ck) sys
         else if cur = COOLDOWN then
           (if get_time_in_state (ck_time_in_state ck) (state_machine sys)
                 > cooldown_period (alarm_system sys) then
              do_transition MONITORING ''Cooldown expired'' (ck_entry ck) sys
            else sys)
         else sys))"

text \<open>
  The consistency of history, current state and counter that the machine keeps.
\<close>

definition history_consistent :: "'w StateMachine \<Rightarrow> bool" where
  "history_consistent sm =
     (state_history sm \<noteq> []
      \<and> entry_state (last (state_history sm)) = state_value (current_state sm)
      \<and> transition_count sm = int (length (state_history sm)) - 1)"

text \<open>
  A system as \<^verbatim>\<open>main.py\<close> builds and drives it, for the examples: started, taken
  through an alert and an alarm, and in cooldown since time 4, with the default
  cooldown period of 10 seconds.
\<close>

definition system_in_cooldown :: "unit AntiTheftSystem" where
  "system_in_cooldown =
     \<lparr>state_machine =
        fst (transition_seq
          [(MONITORING, ''System started'', (1, ''t1'', 1)),
           (ALERT, ''Threat detected'', (2, ''t2'', 2)),
           (ALARM, ''Confirmed threat'', (4, ''t4'', 4)),
           (COOLDOWN, ''Alarm triggered'', (4, ''t4'', 4))]
          (StateMachine_init IDLE 0 (0, ''t0'', 0)) ()),
      alarm_system =
        trigger 4 4 (AlarmSystem_init \<lparr>cfg_enabled = None, cfg_cooldown_period = None\<rparr>),
      system_armed = True,
      surroundings = ()\<rparr>"

definition late_clock :: detection_clock where
  "late_clock =
     \<lparr>ck_time_in_state = 100, ck_entry = (100, ''t100'', 100), ck_can_trigger = 100,
      ck_trigger = 100, ck_cooldown_entry = (100, ''t100'', 100)\<rparr>"

section \<open>Properties of the state machine\<close>

lemma is_valid_transition_table:
  "is_valid_transition s t = (t \<in> spec_successors s)"
  by (cases s; cases t) (simp_all add: is_valid_transition_def VALID_TRANSITIONS_def)

text \<open>
  Claim C1. \<^verbatim>\<open>transition_to(target, reason)\<close> returns false and leaves the machine
  (and its surroundings) exactly as they were precisely when the target is not an
  allowed successor of the current state in the transition table. When the target is
  allowed it returns true, stores the old current state as the previous state, makes
  the target the current state, adds one to the transition counter, and appends one
  history entry holding the new state, a timestamp and the reason.
\<close>

theorem transition_to_validated:
  "(transition_to target reason (ts, dt, te) sm w = (False, sm, w))
     = (target \<notin> spec_successors (current_state sm))
   \<and> (target \<in> spec_successors (current_state sm) \<longrightarrow>
        transition_to target reason (ts, dt, te) sm w =
          (True,
           sm\<lparr>current_state := target,
              previous_state := Some (current_state sm),
              state_enter_time := te,
              state_history := state_history sm @
                [\<lparr>entry_state = state_value target, entry_timestamp = ts,
                  entry_datetime = dt, entry_reason = reason\<rparr>],
              transition_count := transition_count sm + 1\<rparr>,
           (case state_callbacks sm target of None \<Rightarrow> w | Some callback \<Rightarrow> callback w)))"
  by (simp add: transition_to_def is_valid_transition_table record_state_entry_def Let_def)

theorem transition_to_validated_witness:
  "IDLE \<notin> spec_successors ALARM \<and> COOLDOWN \<in> spec_successors ALARM
   \<and> transition_to IDLE ''stop'' (5, ''d'', 6) (StateMachine_init ALARM 0 (1, ''c'', 2)) (0::nat)
       = (False, StateMachine_init ALARM 0 (1, ''c'', 2), 0)
   \<and> transition_to COOLDOWN ''done'' (5, ''d'', 6) (StateMachine_init ALARM 0 (1, ''c'', 2)) (0::nat)
       = (True,
          \<lparr>current_state = COOLDOWN, previous_state = Some ALARM, state_enter_time = 6,
           state_history =
             [\<lparr>entry_state = ''ALARM'', entry_timestamp = 1, entry_datetime = ''c'',
                entry_reason = []\<rparr>,
              \<lparr>entry_state = ''COOLDOWN'', entry_timestamp = 5, entry_datetime = ''d'',
                entry_reason = ''done''\<rparr>],
           transition_count = 1, state_callbacks = Map.empty\<rparr>,
          0)"
  using transition_to_validated [of IDLE "''stop''" 5 "''d''" 6
          "StateMachine_init ALARM 0 (1, ''c'', 2)" "0::nat"]
        transition_to_validated [of COOLDOWN "''done''" 5 "''d''" 6
          "StateMachine_init ALARM 0 (1, ''c'', 2)" "0::nat"]
  by (simp add: StateMachine_init_def record_state_entry_def)

lemma transition_to_consistent:
  "history_consistent sm \<Longrightarrow> history_consistent (fst (snd (transition_to target reason ck sm w)))"
  by (cases ck) (simp add: transition_to_def record_state_entry_def history_consistent_def Let_def)

lemma transition_seq_consistent:
  "history_consistent sm \<Longrightarrow> history_consistent (fst (transition_seq calls sm w))"
proof (induction calls arbitrary: sm w)
  case Nil
  then show ?case by simp
next
  case (Cons c calls)
  obtain target reason ck where c: "c = (target, reason, ck)"
    by (cases c) auto
  obtain ok sm' w' where step: "transition_to target reason ck sm w = (ok, sm', w')"
    by (cases "transition_to target reason ck sm w") auto
  from Cons.prems have "history_consistent sm'"
    using transition_to_consistent [of sm target reason ck w] step by simp
  then show ?case
    using Cons.IH [of sm' w'] c step by simp
qed

lemma init_consistent: "history_consistent (StateMachine_init s0 t0 ck)"
  by (cases ck) (simp add: StateMachine_init_def record_state_entry_def history_consistent_def)

text \<open>
  Claim C10. From construction onward, after every sequence of \<^verbatim>\<open>transition_to\<close>
  calls, the state history is not empty, its last entry records the current state,
  and the transition counter is the length of the history minus one. The constructor
  records the initial state as the only history entry, with counter zero; a
  successful transition appends exactly one entry and adds one to the counter; a
  failed transition changes neither.
\<close>

theorem history_counter_invariant:
  "history_consistent (fst (transition_seq calls (StateMachine_init s0 t0 (ts, dt, te)) w))
   \<and> state_history (StateMachine_init s0 t0 (ts, dt, te) :: 'w StateMachine) =
         [\<lparr>entry_state = state_value s0, entry_timestamp = ts,
           entry_datetime = dt, entry_reason = []\<rparr>]
   \<and> transition_count (StateMachine_init s0 t0 (ts, dt, te) :: 'w StateMachine) = 0
   \<and> current_state (StateMachine_init s0 t0 (ts, dt, te) :: 'w StateMachine) = s0
   \<and> (case transition_to target reason ck (sm :: 'w StateMachine) w of
         (ok, sm', w') \<Rightarrow>
           if ok then
             length (state_history sm') = length (state_history sm) + 1
             \<and> butlast (state_history sm') = state_history sm
             \<and> transition_count sm' = transition_count sm + 1
           else
             state_history sm' = state_history sm
             \<and> transition_count sm' = transition_count sm)"
proof -
  have "history_consistent (fst (transition_seq calls (StateMachine_init s0 t0 (ts, dt, te)) w))"
    by (rule transition_seq_consistent) (rule init_consistent)
  moreover have "case transition_to target reason ck sm w of
         (ok, sm', w') \<Rightarrow>
           if ok then
             length (state_history sm') = length (state_history sm) + 1
             \<and> butlast (state_history sm') = state_history sm
             \<and> transition_count sm' = transition_count sm + 1
           else
             state_history sm' = state_history sm
             \<and> transition_count sm' = transition_count sm"
    by (cases ck) (simp add: transition_to_def record_state_entry_def Let_def)
  ultimately show ?thesis
    by (simp add: StateMachine_init_def record_state_entry_def)
qed

theorem history_counter_invariant_witness:
  "history_consistent (state_machine system_in_cooldown)
   \<and> transition_count (state_machine system_in_cooldown) = 4
   \<and> length (state_history (state_machine system_in_cooldown)) = 5
   \<and> current_state (state_machine system_in_cooldown) = COOLDOWN"
  using history_counter_invariant [of
      "[(MONITORING, ''System started'', (1, ''t1'', 1)),
        (ALERT, ''Threat detected'', (2, ''t2'', 2)),
        (ALARM, ''Confirmed threat'', (4, ''t4'', 4)),
        (COOLDOWN, ''Alarm triggered'', (4, ''t4'', 4))]"
      IDLE 0 0 "''t0''" 0 "()"]
  by (simp add: system_in_cooldown_def StateMachine_init_def record_state_entry_def
      transition_to_def is_valid_transition_table Let_def)

section \<open>Properties of the cooldown timer\<close>

text \<open>
  Claim C5. \<^verbatim>\<open>can_trigger()\<close> is true exactly when the timer is enabled and the time
  elapsed since \<^verbatim>\<open>last_trigger_time\<close> is at least the cooldown period.
  \<^verbatim>\<open>trigger()\<close> changes nothing when \<^verbatim>\<open>can_trigger()\<close> is false; when it is true
  it sets the active flag, stamps \<^verbatim>\<open>last_trigger_time\<close> and adds one to
  \<^verbatim>\<open>trigger_count\<close>. Hence, on a fresh enabled timer whose first call fires, a
  second call inside the cooldown window leaves \<^verbatim>\<open>trigger_count\<close> at 1, and a third
  call once the window has elapsed makes it 2.
\<close>

theorem cooldown_timer_gates_trigger:
  "can_trigger now al = (enabled al \<and> now - last_trigger_time al \<ge> cooldown_period al)
   \<and> (\<not> can_trigger t_check al \<longrightarrow> trigger t_check t_stamp al = al)
   \<and> (can_trigger t_check al \<longrightarrow>
        trigger t_check t_stamp al =
          al\<lparr>is_active := True, last_trigger_time := t_stamp,
             trigger_count := trigger_count al + 1\<rparr>)
   \<and> (enabled (AlarmSystem_init config)
        \<and> can_trigger c1 (AlarmSystem_init config)
        \<and> c2 - s1 < cooldown_period (AlarmSystem_init config)
        \<and> c3 - s1 \<ge> cooldown_period (AlarmSystem_init config) \<longrightarrow>
        trigger_count (trigger c1 s1 (AlarmSystem_init config)) = 1
        \<and> trigger_count (trigger c2 s2 (trigger c1 s1 (AlarmSystem_init config))) = 1
        \<and> trigger_count
            (trigger c3 s3 (trigger c2 s2 (trigger c1 s1 (AlarmSystem_init config)))) = 2)"
  by (simp add: can_trigger_def trigger_def AlarmSystem_init_def Let_def)

theorem cooldown_timer_gates_trigger_witness:
  "can_trigger 1000 (AlarmSystem_init \<lparr>cfg_enabled = None, cfg_cooldown_period = Some 10\<rparr>)
   \<and> \<not> can_trigger 1005
         (trigger 1000 1001 (AlarmSystem_init \<lparr>cfg_enabled = None, cfg_cooldown_period = Some 10\<rparr>))
   \<and> trigger_count
        (trigger 1005 1006
          (trigger 1000 1001
            (AlarmSystem_init \<lparr>cfg_enabled = None, cfg_cooldown_period = Some 10\<rparr>))) = 1
   \<and> trigger_count
        (trigger 1011 1012
          (trigger 1005 1006
            (trigger 1000 1001
              (AlarmSystem_init \<lparr>cfg_enabled = None, cfg_cooldown_period = Some 10\<rparr>)))) = 2"
  using cooldown_timer_gates_trigger [of 1005
      "trigger 1000 1001 (AlarmSystem_init \<lparr>cfg_enabled = None, cfg_cooldown_period = Some 10\<rparr>)"
      1005 1006 "\<lparr>cfg_enabled = None, cfg_cooldown_period = Some 10\<rparr>" 1000 1005 1001 1011 1006 1012]
  by (simp add: can_trigger_def trigger_def AlarmSystem_init_def Let_def)

section \<open>Properties of the control loop\<close>

lemma system_in_cooldown_machine:
  "state_machine system_in_cooldown =
     \<lparr>current_state = COOLDOWN, previous_state = Some ALARM, state_enter_time = 4,
      state_history =
        [\<lparr>entry_state = ''IDLE'', entry_timestamp = 0, entry_datetime = ''t0'',
           entry_reason = []\<rparr>,
         \<lparr>entry_state = ''MONITORING'', entry_timestamp = 1, entry_datetime = ''t1'',
           entry_reason = ''System started''\<rparr>,
         \<lparr>entry_state = ''ALERT'', entry_timestamp = 2, entry_datetime = ''t2'',
           entry_reason = ''Threat detected''\<rparr>,
         \<lparr>entry_state = ''ALARM'', entry_timestamp = 4, entry_datetime = ''t4'',
           entry_reason = ''Confirmed threat''\<rparr>,
         \<lparr>entry_state = ''COOLDOWN'', entry_timestamp = 4, entry_datetime = ''t4'',
           entry_reason = ''Alarm triggered''\<rparr>],
      transition_count = 4, state_callbacks = Map.empty\<rparr>"
  by (simp add: system_in_cooldown_def StateMachine_init_def record_state_entry_def
      transition_to_def is_valid_transition_table Let_def)

lemma system_in_cooldown_period: "cooldown_period (alarm_system system_in_cooldown) = 10"
  by (simp add: system_in_cooldown_def AlarmSystem_init_def trigger_def can_trigger_def)

text \<open>
  Claim C7 as stated fails: with a true trigger boolean, a step taken in
  \<^verbatim>\<open>COOLDOWN\<close> 96 seconds after entry, with a cooldown period of 10 seconds,
  leaves the controller in \<^verbatim>\<open>COOLDOWN\<close>.
\<close>

theorem cooldown_exit_any_trigger_counterexample:
  "current_state (state_machine system_in_cooldown) = COOLDOWN
   \<and> get_time_in_state (ck_time_in_state late_clock) (state_machine system_in_cooldown)
       > cooldown_period (alarm_system system_in_cooldown)
   \<and> current_state (state_machine (handle_detection True late_clock system_in_cooldown))
       = COOLDOWN
   \<and> current_state (state_machine (handle_detection True late_clock system_in_cooldown))
       \<noteq> MONITORING"
  by (simp add: handle_detection_def get_current_state_def get_time_in_state_def
      system_in_cooldown_machine system_in_cooldown_period late_clock_def)

text \<open>
  Claim C7, amended. One step of the control loop taken with a false trigger boolean
  while the controller is in \<^verbatim>\<open>COOLDOWN\<close>, the time in state being greater than the
  cooldown period, moves the controller to \<^verbatim>\<open>MONITORING\<close>; with a true trigger
  boolean the step changes nothing.
\<close>

theorem cooldown_exit_without_trigger:
  "current_state (state_machine sys) = COOLDOWN \<Longrightarrow>
   get_time_in_state (ck_time_in_state ck) (state_machine sys)
     > cooldown_period (alarm_system sys) \<Longrightarrow>
   current_state (state_machine (handle_detection False ck sys)) = MONITORING
   \<and> handle_detection True ck sys = sys"
  by (cases "ck_entry ck")
     (simp add: handle_detection_def get_current_state_def do_transition_def
       transition_to_def is_valid_transition_table record_state_entry_def Let_def)

theorem cooldown_exit_without_trigger_witness:
  "current_state (state_machine system_in_cooldown) = COOLDOWN
   \<and> get_time_in_state (ck_time_in_state late_clock) (state_machine system_in_cooldown)
       > cooldown_period (alarm_system system_in_cooldown)
   \<and> current_state (state_machine (handle_detection False late_clock system_in_cooldown))
       = MONITORING"
  using cooldown_exit_without_trigger [of system_in_cooldown late_clock]
  by (simp add: get_time_in_state_def system_in_cooldown_machine system_in_cooldown_period
      late_clock_def)

section \<open>Properties of the motion detector\<close>

lemma filter_contours_loop_eq:
  "filter_contours_loop area_of m cs acc = acc @ filter (\<lambda>c. area_of c > m) cs"
  by (induction cs arbitrary: acc) (simp_all add: threshold_comparison_def Let_def)

text \<open>
  Claim C6 as stated fails: with the default minimum area of 500, a region whose
  area is exactly 500, which is not below the minimum, is discarded by the filter,
  and the frame that holds only this region reports no motion.
\<close>

theorem area_equal_minimum_counterexample:
  "min_contour_area (MotionDetector_init default_motion_config :: real list MotionDetector) = 500
   \<and> cv_contourArea areas_cv2 500 = 500
   \<and> \<not> cv_contourArea areas_cv2 500
         < min_contour_area (MotionDetector_init default_motion_config :: real list MotionDetector)
   \<and> filter_contours areas_cv2 (MotionDetector_init default_motion_config) [500] = []
   \<and> fst (detect_motion areas_cv2 0 1 [500]
          ((MotionDetector_init default_motion_config)\<lparr>previous_frame := Some [0]\<rparr>))
       = (False, [])"
  by (simp add: detect_motion_def areas_cv2_def MotionDetector_init_def
      default_motion_config_def filter_contours_def threshold_comparison_def Let_def)

text \<open>
  Claim C6, amended. For every list of extracted regions, the area filter keeps, in
  their order, exactly the regions whose area is strictly greater than the
  configured minimum area (default 500), so that a region whose area equals the
  minimum is discarded; and on every frame after the first the decision is
  \<open>motion_present = (count of surviving regions) > 0\<close>.
\<close>

theorem area_filter_strict:
  "filter_contours cv md contours =
     filter (\<lambda>c. cv_contourArea cv c > min_contour_area md) contours
   \<and> (cv_contourArea cv c = min_contour_area md \<longrightarrow> c \<notin> set (filter_contours cv md contours))
   \<and> min_contour_area (MotionDetector_init default_motion_config :: 'g MotionDetector) = 500
   \<and> (previous_frame md = Some previous \<longrightarrow>
        (case detect_motion cv start_time end_time frame md of
           ((motion_present, surviving), md') \<Rightarrow>
             surviving =
               filter_contours cv md
                 (cv_findContours cv
                   (cv_dilate cv (dilation_iterations md)
                     (cv_threshold cv (threshold md)
                       (cv_absdiff cv (cv_preprocess cv (blur_kernel_size md) frame) previous))))
             \<and> motion_present = (length surviving > 0)))"
  by (simp add: filter_contours_def filter_contours_loop_eq detect_motion_def Let_def
      MotionDetector_init_def default_motion_config_def)

theorem area_filter_strict_witness:
  "filter_contours areas_cv2 (MotionDetector_init default_motion_config) [499, 500, 501, 20, 800]
     = [501, 800]
   \<and> previous_frame
       ((MotionDetector_init default_motion_config)\<lparr>previous_frame := Some [0]\<rparr>) = Some [0]
   \<and> fst (detect_motion areas_cv2 0 1 [499, 500, 501]
          ((MotionDetector_init default_motion_config)\<lparr>previous_frame := Some [0]\<rparr>))
       = (True, [501])"
  using area_filter_strict [where cv = areas_cv2
      and md = "MotionDetector_init default_motion_config"
      and contours = "[499, 500, 501, 20, 800]" and c = 500]
    area_filter_strict [where cv = areas_cv2
      and md = "(MotionDetector_init default_motion_config)\<lparr>previous_frame := Some [0]\<rparr>"
      and previous = "[0]" and start_time = 0 and end_time = 1
      and frame = "[499, 500, 501]" and contours = "[499, 500, 501]" and c = 500]
  by (simp add: areas_cv2_def MotionDetector_init_def default_motion_config_def
      split: prod.splits)

section \<open>Properties of the temporal stabilizer\<close>

lemma np_median_odd_integral:
  "odd (length xs) \<Longrightarrow> np_median xs = Some m \<Longrightarrow> of_int (py_int m) = m"
  by (auto simp: np_median_def py_int_def Let_def split: if_splits)

lemma np_median_defined:
  assumes "xs \<noteq> []"
  shows "\<exists>m. np_median xs = Some m"
proof -
  have ne: "sort xs \<noteq> []"
    using assms by (metis length_sort length_0_conv)
  show ?thesis
  proof (cases "odd (length xs)")
    case True
    with ne have "np_median xs = Some (of_int (sort xs ! (length xs div 2)))"
      by (simp add: np_median_def Let_def)
    then show ?thesis ..
  next
    case False
    with ne have "np_median xs =
        Some ((of_int (sort xs ! (length xs div 2 - 1)) + of_int (sort xs ! (length xs div 2))) / 2)"
      by (simp add: np_median_def Let_def)
    then show ?thesis ..
  qed
qed

text \<open>
  Claim C4 as stated fails on a window of even length, which the fourth observation
  meets: after the counts 1, 2, 2 the raw count 0 is accepted as the new stable
  result, although the median of the window 1, 2, 2, 0 is 3/2 and the count 0 differs
  from it by more than 1. The code compares with the median rounded toward zero.
\<close>

theorem truncated_median_counterexample:
  "smoothing_run [faces 1, faces 2, faces 2, faces 0] FaceRecognizer_init =
     Inr ([faces 1, faces 2, faces 2, faces 0],
          FaceRecognizer_init
            \<lparr>face_history := map observation [faces 1, faces 2, faces 2, faces 0],
             last_stable_faces := snd (faces 0), last_stable_names := fst (faces 0)\<rparr>)
   \<and> np_median (map fd_count (map observation [faces 1, faces 2, faces 2, faces 0])) = Some (3 / 2)
   \<and> \<not> \<bar>of_int (int (length (fst (faces 0)))) - 3 / 2\<bar> \<le> (1::rat)"
  by (simp add: faces_def FaceRecognizer_init_def apply_temporal_smoothing_def push_history_def
      observation_def np_median_def py_int_def Let_def)

text \<open>
  Claim C4, amended. For the stabilizer with window length 5 and minimum-confidence
  length 3: while the history, the current observation included, holds fewer than 3
  observations the raw observation is passed through and becomes the stable result.
  Once it holds at least 3, the raw observation is accepted as the new stable result
  exactly when its count differs by at most 1 from the median count over the window
  rounded toward zero to an integer, which is the median itself when the window has
  odd length; otherwise the previously accepted stable result is returned and stays
  as it was. For the raw counts 0, 0, 0, 5, 0 the fourth observation is not accepted:
  the output is the prior stable value.
\<close>

theorem stabilizer_vote:
  assumes "history_length fr = 5" and "min_confidence_frames fr = 3"
  shows "(length (push_history names locations fr) < 3 \<longrightarrow>
           apply_temporal_smoothing names locations fr =
             Inr ((names, locations),
                  fr\<lparr>face_history := push_history names locations fr,
                     last_stable_faces := locations, last_stable_names := names\<rparr>))
       \<and> (length (push_history names locations fr) \<ge> 3 \<longrightarrow>
           (\<exists>m. np_median (map fd_count (push_history names locations fr)) = Some m
              \<and> (odd (length (push_history names locations fr)) \<longrightarrow> of_int (py_int m) = m)
              \<and> (\<bar>int (length names) - py_int m\<bar> \<le> 1 \<longrightarrow>
                   apply_temporal_smoothing names locations fr =
                     Inr ((names, locations),
                          fr\<lparr>face_history := push_history names locations fr,
                             last_stable_faces := locations, last_stable_names := names\<rparr>))
              \<and> (\<not> \<bar>int (length names) - py_int m\<bar> \<le> 1 \<longrightarrow>
                   apply_temporal_smoothing names locations fr =
                     Inr ((last_stable_names fr, last_stable_faces fr),
                          fr\<lparr>face_history := push_history names locations fr\<rparr>))))
       \<and> smoothing_run [faces 0, faces 0, faces 0, faces 5, faces 0] FaceRecognizer_init =
           Inr ([faces 0, faces 0, faces 0, faces 0, faces 0],
                FaceRecognizer_init
                  \<lparr>face_history := map observation [faces 0, faces 0, faces 0, faces 5, faces 0]\<rparr>)"
proof -
  let ?w = "push_history names locations fr"
  have small: "length ?w < 3 \<longrightarrow>
           apply_temporal_smoothing names locations fr =
             Inr ((names, locations),
                  fr\<lparr>face_history := ?w,
                     last_stable_faces := locations, last_stable_names := names\<rparr>)"
    using assms by (simp add: apply_temporal_smoothing_def Let_def)
  have large: "length ?w \<ge> 3 \<longrightarrow>
           (\<exists>m. np_median (map fd_count ?w) = Some m
              \<and> (odd (length ?w) \<longrightarrow> of_int (py_int m) = m)
              \<and> (\<bar>int (length names) - py_int m\<bar> \<le> 1 \<longrightarrow>
                   apply_temporal_smoothing names locations fr =
                     Inr ((names, locations),
                          fr\<lparr>face_history := ?w,
                             last_stable_faces := locations, last_stable_names := names\<rparr>))
              \<and> (\<not> \<bar>int (length names) - py_int m\<bar> \<le> 1 \<longrightarrow>
                   apply_temporal_smoothing names locations fr =
                     Inr ((last_stable_names fr, last_stable_faces fr),
                          fr\<lparr>face_history := ?w\<rparr>)))"
  proof
    assume len: "length ?w \<ge> 3"
    then have "map fd_count ?w \<noteq> []" by auto
    then obtain m where m: "np_median (map fd_count ?w) = Some m"
      using np_median_defined by blast
    have "odd (length ?w) \<longrightarrow> of_int (py_int m) = m"
      using np_median_odd_integral [of "map fd_count ?w" m] m by simp
    moreover have "\<bar>int (length names) - py_int m\<bar> \<le> 1 \<longrightarrow>
                   apply_temporal_smoothing names locations fr =
                     Inr ((names, locations),
                          fr\<lparr>face_history := ?w,
                             last_stable_faces := locations, last_stable_names := names\<rparr>)"
      using assms len m by (simp add: apply_temporal_smoothing_def Let_def)
    moreover have "\<not> \<bar>int (length names) - py_int m\<bar> \<le> 1 \<longrightarrow>
                   apply_temporal_smoothing names locations fr =
                     Inr ((last_stable_names fr, last_stable_faces fr),
                          fr\<lparr>face_history := ?w\<rparr>)"
      using assms len m by (simp add: apply_temporal_smoothing_def Let_def)
    ultimately show "\<exists>m. np_median (map fd_count ?w) = Some m
              \<and> (odd (length ?w) \<longrightarrow> of_int (py_int m) = m)
              \<and> (\<bar>int (length names) - py_int m\<bar> \<le> 1 \<longrightarrow>
                   apply_temporal_smoothing names locations fr =
                     Inr ((names, locations),
                          fr\<lparr>face_history := ?w,
                             last_stable_faces := locations, last_stable_names := names\<rparr>))
              \<and> (\<not> \<bar>int (length names) - py_int m\<bar> \<le> 1 \<longrightarrow>
                   apply_temporal_smoothing names locations fr =
                     Inr ((last_stable_names fr, last_stable_faces fr),
                          fr\<lparr>face_history := ?w\<rparr>))"
      using m by blast
  qed
  have example: "smoothing_run [faces 0, faces 0, faces 0, faces 5, faces 0] FaceRecognizer_init =
           Inr ([faces 0, faces 0, faces 0, faces 0, faces 0],
                FaceRecognizer_init
                  \<lparr>face_history := map observation [faces 0, faces 0, faces 0, faces 5, faces 0]\<rparr>)"
    by (simp add: faces_def FaceRecognizer_init_def apply_temporal_smoothing_def push_history_def
      observation_def np_median_def py_int_def Let_def)
  from small large example show ?thesis by blast
qed

theorem stabilizer_vote_witness:
  "history_length (FaceRecognizer_init\<lparr>face_history := map observation [faces 0, faces 0, faces 0]\<rparr>) = 5
   \<and> min_confidence_frames (FaceRecognizer_init\<lparr>face_history := map observation [faces 0, faces 0, faces 0]\<rparr>) = 3
   \<and> np_median (map fd_count (push_history (fst (faces 5)) (snd (faces 5))
         (FaceRecognizer_init\<lparr>face_history := map observation [faces 0, faces 0, faces 0]\<rparr>))) = Some 0
   \<and> apply_temporal_smoothing (fst (faces 5)) (snd (faces 5))
       (FaceRecognizer_init\<lparr>face_history := map observation [faces 0, faces 0, faces 0]\<rparr>)
     = Inr (faces 0,
        FaceRecognizer_init\<lparr>face_history := map observation [faces 0, faces 0, faces 0, faces 5]\<rparr>)"
  using stabilizer_vote [of
      "FaceRecognizer_init\<lparr>face_history := map observation [faces 0, faces 0, faces 0]\<rparr>"
      "fst (faces 5)" "snd (faces 5)"]
  by (simp add: faces_def FaceRecognizer_init_def push_history_def observation_def np_median_def
      py_int_def Let_def)

section \<open>Properties of the ring buffer\<close>

lemma slot_distinct:
  fixes N :: int
  assumes "0 < d" and "d < N"
  shows "nat ((a + d) mod N) \<noteq> nat (a mod N)"
proof
  assume eq: "nat ((a + d) mod N) = nat (a mod N)"
  from assms have N: "0 < N" by simp
  then have "0 \<le> (a + d) mod N" and "0 \<le> a mod N" by simp_all
  with eq have "(a + d) mod N = a mod N" by simp
  then have "N dvd (a + d) - a" by (simp add: mod_eq_dvd_iff)
  then have "N dvd d" by simp
  with assms show False by (simp add: zdvd_not_zless)
qed

lemma py_getitem_in_range:
  "0 \<le> i \<Longrightarrow> i < int (length xs) \<Longrightarrow> py_getitem xs i = Inr (xs ! nat i)"
  by (simp add: py_getitem_def py_index_def Let_def)

lemma write_not_full:
  assumes inv: "ring_holds N q fb" and len: "int (length q) < N"
  shows "\<exists>fb'. write_frame x fb = Inr fb' \<and> ring_holds N (q @ [x]) fb'
           \<and> overflow_count fb' = overflow_count fb
           \<and> write_count fb' = write_count fb + 1
           \<and> read_count fb' = read_count fb"
proof -
  from len have N: "0 < N" by linarith
  from inv have cap: "capacity fb = N" and lb: "length (buffer fb) = nat N"
    and t0: "0 \<le> tail fb" and t1: "tail fb < N" and cnt: "count fb = int (length q)"
    and hd: "head fb = (tail fb + int (length q)) mod N"
    and slots: "\<And>i. i < length q \<Longrightarrow> buffer fb ! nat ((tail fb + int i) mod N) = Some (q ! i)"
    by (simp_all add: ring_holds_def)
  have h0: "0 \<le> head fb" and h1: "head fb < N"
    using N hd by simp_all
  let ?fb' = "fb\<lparr>buffer := (buffer fb)[nat (head fb) := Some x],
                  head := (head fb + 1) mod N, count := count fb + 1,
                  write_count := write_count fb + 1\<rparr>"
  have w: "write_frame x fb = Inr ?fb'"
    using cap lb cnt len N h0 h1
    by (simp add: write_frame_def py_setitem_def py_index_def py_mod_def Let_def)
  have newhd: "(head fb + 1) mod N = (tail fb + int (length (q @ [x]))) mod N"
  proof -
    have "(head fb + 1) mod N = ((tail fb + int (length q)) mod N + 1) mod N"
      using hd by simp
    also have "\<dots> = (tail fb + int (length q) + 1) mod N"
      by (rule mod_add_left_eq)
    finally show ?thesis by (simp add: ac_simps)
  qed
  have slots': "buffer ?fb' ! nat ((tail fb + int i) mod N) = Some ((q @ [x]) ! i)"
    if i: "i < length (q @ [x])" for i
  proof (cases "i = length q")
    case True
    then show ?thesis using hd h1 h0 lb by simp
  next
    case False
    with i have iq: "i < length q" by simp
    have "nat ((tail fb + int i + (int (length q) - int i)) mod N) \<noteq> nat ((tail fb + int i) mod N)"
      using iq len by (intro slot_distinct) simp_all
    then have "nat (head fb) \<noteq> nat ((tail fb + int i) mod N)"
      using hd by simp
    then show ?thesis using slots [OF iq] iq by (simp add: nth_append)
  qed
  have "ring_holds N (q @ [x]) ?fb'"
    unfolding ring_holds_def using cap lb t0 t1 cnt len newhd slots' by simp
  with w show ?thesis by simp
qed

lemma write_full:
  assumes inv: "ring_holds N q fb" and len: "int (length q) = N" and N: "1 \<le> N"
  shows "\<exists>fb'. write_frame x fb = Inr fb' \<and> ring_holds N (tl q @ [x]) fb'
           \<and> overflow_count fb' = overflow_count fb + 1
           \<and> write_count fb' = write_count fb + 1
           \<and> read_count fb' = read_count fb"
proof -
  from inv have cap: "capacity fb = N" and lb: "length (buffer fb) = nat N"
    and t0: "0 \<le> tail fb" and t1: "tail fb < N" and cnt: "count fb = int (length q)"
    and hd: "head fb = (tail fb + int (length q)) mod N"
    and slots: "\<And>i. i < length q \<Longrightarrow> buffer fb ! nat ((tail fb + int i) mod N) = Some (q ! i)"
    by (simp_all add: ring_holds_def)
  have hdt: "head fb = tail fb"
    using hd len t0 t1 by simp
  let ?t = "(tail fb + 1) mod N"
  let ?fb' = "fb\<lparr>overflow_count := overflow_count fb + 1, tail := ?t,
                  buffer := (buffer fb)[nat (tail fb) := Some x],
                  head := (tail fb + 1) mod N, count := count fb,
                  write_count := write_count fb + 1\<rparr>"
  have w: "write_frame x fb = Inr ?fb'"
    using cap lb cnt len N t0 t1 hdt
    by (simp add: write_frame_def py_setitem_def py_index_def py_mod_def Let_def)
  have lq: "length (tl q @ [x]) = length q"
    using len N by (cases q) simp_all
  have newhd: "(tail fb + 1) mod N = (?t + int (length (tl q @ [x]))) mod N"
    using len lq by (simp add: mod_add_left_eq)
  have slots': "buffer ?fb' ! nat ((?t + int i) mod N) = Some ((tl q @ [x]) ! i)"
    if i: "i < length (tl q @ [x])" for i
  proof -
    have idx: "(?t + int i) mod N = (tail fb + (1 + int i)) mod N"
      by (simp add: mod_add_left_eq add.assoc)
    show ?thesis
    proof (cases "Suc i = length q")
      case True
      then have "1 + int i = N"
        using len by linarith
      then have "(tail fb + (1 + int i)) mod N = tail fb"
        using t0 t1 by simp
      moreover have "(tl q @ [x]) ! i = x"
        using True by (cases q) (simp_all add: nth_append)
      ultimately show ?thesis using idx t0 t1 lb by simp
    next
      case False
      with i lq have iq: "Suc i < length q" by simp
      have "nat ((tail fb + (1 + int i)) mod N) \<noteq> nat (tail fb mod N)"
        using iq len by (intro slot_distinct) simp_all
      then have ne: "nat (tail fb) \<noteq> nat ((tail fb + (1 + int i)) mod N)"
        using t0 t1 by simp
      have "buffer fb ! nat ((tail fb + int (Suc i)) mod N) = Some (q ! Suc i)"
        using slots [OF iq] .
      moreover have "(tl q @ [x]) ! i = q ! Suc i"
        using iq by (cases q) (simp_all add: nth_append)
      ultimately show ?thesis using idx ne by (simp add: add.commute)
    qed
  qed
  have "0 \<le> ?t" and "?t < N" using N by simp_all
  then have "ring_holds N (tl q @ [x]) ?fb'"
    unfolding ring_holds_def using cap lb cnt len lq newhd slots' by simp
  with w show ?thesis by simp
qed

lemma last_n_short: "int (length xs) \<le> N \<Longrightarrow> last_n N xs = xs"
  by (simp add: last_n_def)

lemma last_n_snoc_full:
  "int (length q) = N \<Longrightarrow> 1 \<le> N \<Longrightarrow> last_n N (q @ [x]) = tl q @ [x]"
  by (cases q) (simp_all add: last_n_def Suc_diff_le)

lemma last_n_absorb:
  "last_n N (last_n N ys @ xs) = last_n N (ys @ xs)"
proof (cases "length ys \<le> nat N")
  case True
  then show ?thesis by (simp add: last_n_def)
next
  case False
  then show ?thesis
    by (simp add: last_n_def add.commute)
qed

lemma write_step:
  assumes inv: "ring_holds N q fb" and N: "1 \<le> N"
  shows "\<exists>fb'. write_frame x fb = Inr fb' \<and> ring_holds N (last_n N (q @ [x])) fb'
           \<and> overflow_count fb' = overflow_count fb + (if int (length q) = N then 1 else 0)
           \<and> write_count fb' = write_count fb + 1
           \<and> read_count fb' = read_count fb"
proof (cases "int (length q) = N")
  case True
  then show ?thesis
    using write_full [OF inv True N, of x] N by (simp add: last_n_snoc_full)
next
  case False
  with inv have len: "int (length q) < N"
    by (simp add: ring_holds_def)
  then have "last_n N (q @ [x]) = q @ [x]"
    by (intro last_n_short) simp
  with False show ?thesis
    using write_not_full [OF inv len, of x] by simp
qed

lemma ring_holds_init: "1 \<le> N \<Longrightarrow> ring_holds N [] (CircularFrameBuffer_init N)"
  by (simp add: ring_holds_def CircularFrameBuffer_init_def)

lemma length_last_n: "int (length (last_n N xs)) = min (int (length xs)) (max 0 N)"
  by (simp add: last_n_def)

lemma write_all_holds:
  assumes "ring_holds N q fb" and "1 \<le> N"
  shows "\<exists>fb'. write_all xs fb = Inr fb' \<and> ring_holds N (last_n N (q @ xs)) fb'
           \<and> overflow_count fb' =
               overflow_count fb + max 0 (int (length q) + int (length xs) - N)
           \<and> write_count fb' = write_count fb + int (length xs)
           \<and> read_count fb' = read_count fb"
  using assms
proof (induction xs arbitrary: q fb)
  case Nil
  then have "int (length q) \<le> N" by (simp add: ring_holds_def)
  with Nil show ?case by (simp add: last_n_short)
next
  case (Cons x xs)
  from Cons.prems have lq: "int (length q) \<le> N" by (simp add: ring_holds_def)
  obtain fb1 where w: "write_frame x fb = Inr fb1"
    and h1: "ring_holds N (last_n N (q @ [x])) fb1"
    and o1: "overflow_count fb1 = overflow_count fb + (if int (length q) = N then 1 else 0)"
    and w1: "write_count fb1 = write_count fb + 1"
    and r1: "read_count fb1 = read_count fb"
    using write_step [OF Cons.prems, of x] by blast
  obtain fb' where wa: "write_all xs fb1 = Inr fb'"
    and h2: "ring_holds N (last_n N (last_n N (q @ [x]) @ xs)) fb'"
    and o2: "overflow_count fb' =
               overflow_count fb1 + max 0 (int (length (last_n N (q @ [x]))) + int (length xs) - N)"
    and w2: "write_count fb' = write_count fb1 + int (length xs)"
    and r2: "read_count fb' = read_count fb1"
    using Cons.IH [OF h1 Cons.prems(2)] by blast
  have "last_n N (last_n N (q @ [x]) @ xs) = last_n N (q @ x # xs)"
    by (simp add: last_n_absorb)
  moreover have "overflow_count fb' =
      overflow_count fb + max 0 (int (length q) + int (length (x # xs)) - N)"
    using o1 o2 lq Cons.prems(2) by (auto simp: length_last_n algebra_simps)
  ultimately show ?case
    using w wa h2 w1 w2 r1 r2 by simp
qed

lemma read_step:
  assumes inv: "ring_holds N (y # q) fb"
  shows "\<exists>fb'. read fb = Inr (Some y, fb') \<and> ring_holds N q fb'
           \<and> overflow_count fb' = overflow_count fb
           \<and> write_count fb' = write_count fb
           \<and> read_count fb' = read_count fb + 1"
proof -
  from inv have cap: "capacity fb = N" and lb: "length (buffer fb) = nat N"
    and t0: "0 \<le> tail fb" and t1: "tail fb < N" and cnt: "count fb = int (length (y # q))"
    and len: "int (length (y # q)) \<le> N"
    and hd: "head fb = (tail fb + int (length (y # q))) mod N"
    and slots: "\<And>i. i < length (y # q) \<Longrightarrow>
                  buffer fb ! nat ((tail fb + int i) mod N) = Some ((y # q) ! i)"
    by (simp_all add: ring_holds_def)
  from len have N: "0 < N" by simp
  have first: "buffer fb ! nat (tail fb) = Some y"
    using slots [of 0] t0 t1 by simp
  let ?t = "(tail fb + 1) mod N"
  let ?fb' = "fb\<lparr>buffer := (buffer fb)[nat (tail fb) := None], tail := ?t,
                  count := count fb - 1, read_count := read_count fb + 1\<rparr>"
  have r: "read fb = Inr (Some y, ?fb')"
    using cap lb cnt N t0 t1 first
    by (simp add: read_def py_getitem_def py_setitem_def py_index_def py_mod_def Let_def)
  have newhd: "head fb = (?t + int (length q)) mod N"
  proof -
    have "(?t + int (length q)) mod N = (tail fb + 1 + int (length q)) mod N"
      by (rule mod_add_left_eq)
    then show ?thesis using hd by (simp add: ac_simps)
  qed
  have slots': "buffer ?fb' ! nat ((?t + int i) mod N) = Some (q ! i)"
    if i: "i < length q" for i
  proof -
    have idx: "(?t + int i) mod N = (tail fb + (1 + int i)) mod N"
      by (simp add: mod_add_left_eq add.assoc)
    have "nat ((tail fb + (1 + int i)) mod N) \<noteq> nat (tail fb mod N)"
      using i len by (intro slot_distinct) simp_all
    then have ne: "nat (tail fb) \<noteq> nat ((tail fb + (1 + int i)) mod N)"
      using t0 t1 by simp
    have "buffer fb ! nat ((tail fb + int (Suc i)) mod N) = Some ((y # q) ! Suc i)"
      using slots [of "Suc i"] i by simp
    then show ?thesis using idx ne by (simp add: add.commute)
  qed
  have "0 \<le> ?t" and "?t < N" using N by simp_all
  then have "ring_holds N q ?fb'"
    unfolding ring_holds_def using cap lb cnt len newhd slots' by simp
  with r show ?thesis by simp
qed

lemma read_n_holds:
  assumes "ring_holds N q fb"
  shows "\<exists>fb'. read_n (length q) fb = Inr (map Some q, fb') \<and> ring_holds N [] fb'
           \<and> overflow_count fb' = overflow_count fb
           \<and> write_count fb' = write_count fb
           \<and> read_count fb' = read_count fb + int (length q)"
  using assms
proof (induction q arbitrary: fb)
  case Nil
  then show ?case by simp
next
  case (Cons y q)
  obtain fb1 where r: "read fb = Inr (Some y, fb1)" and h1: "ring_holds N q fb1"
    and c1: "overflow_count fb1 = overflow_count fb" "write_count fb1 = write_count fb"
      "read_count fb1 = read_count fb + 1"
    using read_step [OF Cons.prems] by blast
  obtain fb' where rn: "read_n (length q) fb1 = Inr (map Some q, fb')"
    and h2: "ring_holds N [] fb'"
    and c2: "overflow_count fb' = overflow_count fb1" "write_count fb' = write_count fb1"
      "read_count fb' = read_count fb1 + int (length q)"
    using Cons.IH [OF h1] by blast
  show ?case
    using r rn h2 c1 c2 by simp
qed

lemma get_latest_holds:
  assumes inv: "ring_holds N q fb" and ne: "q \<noteq> []"
  shows "get_latest fb = Inr (Some (last q))"
proof -
  from inv have cap: "capacity fb = N" and lb: "length (buffer fb) = nat N"
    and cnt: "count fb = int (length q)" and len: "int (length q) \<le> N"
    and hd: "head fb = (tail fb + int (length q)) mod N"
    and slots: "\<And>i. i < length q \<Longrightarrow> buffer fb ! nat ((tail fb + int i) mod N) = Some (q ! i)"
    by (simp_all add: ring_holds_def)
  from ne len have N: "0 < N" by (cases q) simp_all
  have "(head fb - 1) mod N = (tail fb + int (length q) - 1) mod N"
    using hd by (simp add: mod_diff_left_eq)
  also have "\<dots> = (tail fb + int (length q - 1)) mod N"
    using ne by (cases q) simp_all
  finally have idx: "(head fb - 1) mod N = (tail fb + int (length q - 1)) mod N" .
  have "buffer fb ! nat ((tail fb + int (length q - 1)) mod N) = Some (q ! (length q - 1))"
    using ne by (intro slots) simp
  then have "buffer fb ! nat ((head fb - 1) mod N) = Some (last q)"
    using idx ne by (simp add: last_conv_nth)
  moreover have "py_getitem (buffer fb) ((head fb - 1) mod N)
      = Inr (buffer fb ! nat ((head fb - 1) mod N))"
    using N lb by (intro py_getitem_in_range) simp_all
  ultimately show ?thesis
    using cap cnt ne N
    by (simp add: get_latest_def py_mod_def)
qed

lemma queued_holds:
  assumes "ring_holds N q fb"
  shows "queued fb = map Some q"
  using assms
  by (auto simp: queued_def ring_holds_def intro!: nth_equalityI)

text \<open>
  Claim C9. For every capacity \<open>N\<close> of at least 1 and every sequence of exactly \<open>N\<close>
  frames written into a fresh buffer of capacity \<open>N\<close>, every write succeeds and the
  \<open>N\<close> following \<^verbatim>\<open>read()\<close> calls return exactly those frames in the order they were
  written: none is dropped (the overflow counter stays 0) and none is returned twice
  (the buffer is empty afterwards). The frames need not even be distinct.
\<close>

theorem ring_round_trip:
  assumes "1 \<le> N" and "int (length xs) = N"
  shows "\<exists>fb fb'. write_all xs (CircularFrameBuffer_init N) = Inr fb
           \<and> read_n (length xs) fb = Inr (map Some xs, fb')
           \<and> overflow_count fb' = 0 \<and> count fb = N \<and> count fb' = 0"
proof -
  obtain fb where w: "write_all xs (CircularFrameBuffer_init N) = Inr fb"
    and h: "ring_holds N (last_n N ([] @ xs)) fb"
    and o: "overflow_count fb =
        overflow_count (CircularFrameBuffer_init N :: 'a CircularFrameBuffer)
          + max 0 (int (length ([] :: 'a list)) + int (length xs) - N)"
    using write_all_holds [OF ring_holds_init [OF assms(1)] assms(1), of xs] by blast
  from assms(2) have ln: "last_n N ([] @ xs) = xs"
    by (simp add: last_n_short)
  with h have h': "ring_holds N xs fb" by simp
  obtain fb' where r: "read_n (length xs) fb = Inr (map Some xs, fb')"
    and h2: "ring_holds N [] fb'" and o2: "overflow_count fb' = overflow_count fb"
    using read_n_holds [OF h'] by blast
  have "overflow_count fb' = 0"
    using o o2 assms(2) by (simp add: CircularFrameBuffer_init_def)
  moreover have "count fb = N" using h' assms(2) by (simp add: ring_holds_def)
  moreover have "count fb' = 0" using h2 by (simp add: ring_holds_def)
  ultimately show ?thesis using w r by blast
qed

theorem ring_round_trip_witness:
  "write_all [10, 20, 30 :: nat] (CircularFrameBuffer_init 3) =
     Inr \<lparr>capacity = 3, buffer = [Some 10, Some 20, Some 30], head = 0, tail = 0, count = 3,
          write_count = 3, read_count = 0, overflow_count = 0\<rparr>
   \<and> read_n (length [10, 20, 30 :: nat])
        \<lparr>capacity = 3, buffer = [Some 10, Some 20, Some 30], head = 0, tail = 0, count = 3,
         write_count = 3, read_count = 0, overflow_count = 0\<rparr> =
     Inr ([Some 10, Some 20, Some 30],
          \<lparr>capacity = 3, buffer = [None, None, None], head = 0, tail = 0, count = 0,
           write_count = 3, read_count = 3, overflow_count = 0\<rparr>)"
  using ring_round_trip [of 3 "[10, 20, 30 :: nat]"]
  by (simp add: CircularFrameBuffer_init_def write_frame_def read_def py_mod_def
      py_setitem_def py_index_def py_getitem_def Let_def eval_nat_numeral)

text \<open>
  Claim C2 as stated fails in its last part: an overflowing write does not increment
  the overflow counter only. On a full buffer of capacity 1 the second write takes
  the overflow counter from 0 to 1 and the write counter from 1 to 2.
\<close>

theorem overflow_write_count_counterexample:
  "write_all [7 :: nat] (CircularFrameBuffer_init 1) =
     Inr \<lparr>capacity = 1, buffer = [Some 7], head = 0, tail = 0, count = 1,
          write_count = 1, read_count = 0, overflow_count = 0\<rparr>
   \<and> write_frame 8
        \<lparr>capacity = 1, buffer = [Some (7 :: nat)], head = 0, tail = 0, count = 1,
         write_count = 1, read_count = 0, overflow_count = 0\<rparr> =
     Inr \<lparr>capacity = 1, buffer = [Some 8], head = 0, tail = 0, count = 1,
          write_count = 2, read_count = 0, overflow_count = 1\<rparr>"
  by (simp add: CircularFrameBuffer_init_def write_frame_def py_mod_def py_setitem_def
      py_index_def Let_def)

text \<open>
  Claim C2, amended. For every capacity \<open>N\<close> of at least 1 and every sequence of
  \<open>M > N\<close> consecutive writes on a fresh buffer of capacity \<open>N\<close> with no reads in
  between, every write succeeds and afterwards the size is \<open>N\<close>, the overflow counter
  is \<open>M - N\<close>, and \<^verbatim>\<open>get_latest()\<close> returns the last written frame (the buffer
  holding the last \<open>N\<close> frames written). Each overflowing write, that is each write
  after the first \<open>N\<close>, drops the oldest waiting frame, leaves the size at \<open>N\<close>, and
  increments the overflow counter by one; it also increments the write counter, as
  every write does, and leaves the read counter alone.
\<close>

theorem ring_overflow:
  assumes N: "1 \<le> N" and M: "N < int (length xs)"
  shows "(\<exists>fb. write_all xs (CircularFrameBuffer_init N) = Inr fb
           \<and> count fb = N
           \<and> overflow_count fb = int (length xs) - N
           \<and> get_latest fb = Inr (Some (last xs))
           \<and> queued fb = map Some (last_n N xs)
           \<and> write_count fb = int (length xs))
       \<and> (\<forall>ys x zs. xs = ys @ x # zs \<and> N \<le> int (length ys) \<longrightarrow>
           (\<exists>fb1 fb2. write_all ys (CircularFrameBuffer_init N) = Inr fb1
              \<and> write_frame x fb1 = Inr fb2
              \<and> count fb1 = N \<and> count fb2 = N
              \<and> queued fb2 = tl (queued fb1) @ [Some x]
              \<and> overflow_count fb2 = overflow_count fb1 + 1
              \<and> write_count fb2 = write_count fb1 + 1
              \<and> read_count fb2 = read_count fb1))"
proof -
  let ?init = "CircularFrameBuffer_init N :: 'a CircularFrameBuffer"
  have init: "ring_holds N [] ?init" by (rule ring_holds_init [OF N])
  obtain fb where w: "write_all xs ?init = Inr fb"
    and h: "ring_holds N (last_n N ([] @ xs)) fb"
    and o: "overflow_count fb =
        overflow_count ?init + max 0 (int (length ([] :: 'a list)) + int (length xs) - N)"
    and wc: "write_count fb = write_count ?init + int (length xs)"
    using write_all_holds [OF init N, of xs] by blast
  from h have h': "ring_holds N (last_n N xs) fb" by simp
  have ne: "last_n N xs \<noteq> []"
    using N M by (simp add: last_n_def)
  have "count fb = N"
    using h' M N by (simp add: ring_holds_def length_last_n)
  moreover have "overflow_count fb = int (length xs) - N"
    using o M by (simp add: CircularFrameBuffer_init_def)
  moreover have "get_latest fb = Inr (Some (last xs))"
    using get_latest_holds [OF h' ne] N M by (simp add: last_n_def)
  moreover have "queued fb = map Some (last_n N xs)"
    by (rule queued_holds [OF h'])
  moreover have "write_count fb = int (length xs)"
    using wc by (simp add: CircularFrameBuffer_init_def)
  ultimately have final: "\<exists>fb. write_all xs (CircularFrameBuffer_init N) = Inr fb
           \<and> count fb = N
           \<and> overflow_count fb = int (length xs) - N
           \<and> get_latest fb = Inr (Some (last xs))
           \<and> queued fb = map Some (last_n N xs)
           \<and> write_count fb = int (length xs)"
    using w by blast
  have each: "\<exists>fb1 fb2. write_all ys (CircularFrameBuffer_init N) = Inr fb1
              \<and> write_frame x fb1 = Inr fb2
              \<and> count fb1 = N \<and> count fb2 = N
              \<and> queued fb2 = tl (queued fb1) @ [Some x]
              \<and> overflow_count fb2 = overflow_count fb1 + 1
              \<and> write_count fb2 = write_count fb1 + 1
              \<and> read_count fb2 = read_count fb1"
    if ly: "N \<le> int (length ys)" for ys :: "'a list" and x :: 'a
  proof -
    obtain fb1 where w1: "write_all ys ?init = Inr fb1"
      and h1: "ring_holds N (last_n N ([] @ ys)) fb1"
      using write_all_holds [OF init N, of ys] by blast
    from h1 have h1': "ring_holds N (last_n N ys) fb1" by simp
    have full: "int (length (last_n N ys)) = N"
      using ly N by (simp add: length_last_n)
    obtain fb2 where w2: "write_frame x fb1 = Inr fb2"
      and h2: "ring_holds N (tl (last_n N ys) @ [x]) fb2"
      and c2: "overflow_count fb2 = overflow_count fb1 + 1"
        "write_count fb2 = write_count fb1 + 1" "read_count fb2 = read_count fb1"
      using write_full [OF h1' full N, of x] by blast
    have "count fb1 = N" using h1' full by (simp add: ring_holds_def)
    moreover have "count fb2 = N" using h2 full N by (simp add: ring_holds_def)
    moreover have "queued fb2 = tl (queued fb1) @ [Some x]"
      using queued_holds [OF h1'] queued_holds [OF h2] by (simp add: map_tl)
    ultimately show ?thesis
      using w1 w2 c2 by blast
  qed
  from final each show ?thesis by blast
qed

theorem ring_overflow_witness:
  "write_all [1, 2, 3 :: nat] (CircularFrameBuffer_init 2) =
     Inr \<lparr>capacity = 2, buffer = [Some 3, Some 2], head = 1, tail = 1, count = 2,
          write_count = 3, read_count = 0, overflow_count = 1\<rparr>
   \<and> get_latest
        \<lparr>capacity = 2, buffer = [Some (3 :: nat), Some 2], head = 1, tail = 1, count = 2,
         write_count = 3, read_count = 0, overflow_count = 1\<rparr> = Inr (Some 3)
   \<and> queued
        \<lparr>capacity = 2, buffer = [Some (3 :: nat), Some 2], head = 1, tail = 1, count = 2,
         write_count = 3, read_count = 0, overflow_count = 1\<rparr> = [Some 2, Some 3]"
  using ring_overflow [of 2 "[1, 2, 3 :: nat]"]
  by (simp add: CircularFrameBuffer_init_def write_frame_def py_mod_def py_setitem_def
      py_index_def py_getitem_def get_latest_def queued_def Let_def eval_nat_numeral)

section \<open>Properties of the bounded cache\<close>

lemma od_setitem_new: "map_of od k = None \<Longrightarrow> od_setitem k v od = od @ [(k, v)]"
  by (simp add: od_setitem_def)

lemma map_of_filter_other: "map_of (filter (\<lambda>kv. fst kv \<noteq> k) od) k = None"
  by (auto simp: map_of_eq_None_iff)

lemma od_setitem_moved:
  "od_setitem k v (filter (\<lambda>kv. fst kv \<noteq> k) od @ [(k, old)])
     = filter (\<lambda>kv. fst kv \<noteq> k) od @ [(k, v)]"
proof -
  have "map_of (filter (\<lambda>kv. fst kv \<noteq> k) od @ [(k, old)]) k = Some old"
    by (simp add: map_add_def map_of_filter_other)
  moreover have "map (\<lambda>kv. if fst kv = k then (k, v) else kv) (filter (\<lambda>kv. fst kv \<noteq> k) od)
      = filter (\<lambda>kv. fst kv \<noteq> k) od"
    by (induction od) simp_all
  ultimately show ?thesis
    by (simp add: od_setitem_def)
qed

lemma get_hit:
  "map_of (cache c) k = Some v \<Longrightarrow>
   get k c = Inr (Some v,
     c\<lparr>access_count := access_count c + 1,
       cache := filter (\<lambda>kv. fst kv \<noteq> k) (cache c) @ [(k, v)],
       hit_count := hit_count c + 1\<rparr>)"
  by (simp add: get_def move_to_end_def Let_def)

lemma get_miss:
  "map_of (cache c) k = None \<Longrightarrow>
   get k c = Inr (None,
     c\<lparr>access_count := access_count c + 1, miss_count := miss_count c + 1\<rparr>)"
  by (simp add: get_def Let_def)

lemma put_existing:
  "map_of (cache c) k = Some old \<Longrightarrow>
   put k v c = Inr (c\<lparr>cache := filter (\<lambda>kv. fst kv \<noteq> k) (cache c) @ [(k, v)]\<rparr>)"
  by (simp add: put_def move_to_end_def od_setitem_moved)

lemma put_new_room:
  "map_of (cache c) k = None \<Longrightarrow> int (length (cache c)) < lru_capacity c \<Longrightarrow>
   put k v c = Inr (c\<lparr>cache := cache c @ [(k, v)]\<rparr>)"
  by (simp add: put_def od_setitem_new)

lemma put_new_full:
  assumes "map_of (cache c) k = None" and "int (length (cache c)) \<ge> lru_capacity c"
    and "cache c = kv # rest"
  shows "put k v c =
     Inr (c\<lparr>cache := rest @ [(k, v)], eviction_count := eviction_count c + 1\<rparr>)"
proof -
  from assms(1,3) have "map_of rest k = None"
    by (cases kv) (simp split: if_splits)
  with assms show ?thesis
    by (simp add: put_def popitem_first_def od_setitem_new)
qed

text \<open>Touching a stored key.\<close>

lemma touch_stored_inv:
  assumes inv: "lru_inv C t stamp c" and k: "map_of (cache c) k = Some old"
  shows "lru_inv C (Suc t) (stamp(k := Suc t))
           (c\<lparr>cache := filter (\<lambda>kv. fst kv \<noteq> k) (cache c) @ [(k, v)]\<rparr>)"
proof -
  let ?rest = "filter (\<lambda>kv. fst kv \<noteq> k) (cache c)"
  from inv have cap: "lru_capacity c = C" and len: "int (length (cache c)) \<le> C"
    and dist: "distinct (map fst (cache c))"
    and srt: "sorted_wrt (<) (map stamp (map fst (cache c)))"
    and bound: "\<And>k'. k' \<in> fst ` set (cache c) \<Longrightarrow> stamp k' \<le> t"
    by (auto simp: lru_inv_def)
  from k have kin: "(k, old) \<in> set (cache c)" by (rule map_of_SomeD)
  have keys: "map fst ?rest = filter (\<lambda>k'. k' \<noteq> k) (map fst (cache c))"
    by (simp add: filter_map comp_def)
  have notin: "k \<notin> fst ` set ?rest" by auto
  have "length ?rest < length (cache c)"
    using kin by (intro length_filter_less [of "(k, old)"]) simp_all
  then have len': "int (length (?rest @ [(k, v)])) \<le> C"
    using len by simp
  have dist': "distinct (map fst (?rest @ [(k, v)]))"
    using dist notin by (simp add: keys)
  have same: "map (stamp(k := Suc t) \<circ> fst) ?rest = map (stamp \<circ> fst) ?rest"
    by auto
  have s1: "sorted_wrt (<) (map (stamp \<circ> fst) ?rest)"
    using srt by (simp add: sorted_wrt_map sorted_wrt_filter)
  have s2: "\<forall>kv \<in> set ?rest. stamp (fst kv) < Suc t"
    using bound by (auto simp: less_Suc_eq_le)
  have srt': "sorted_wrt (<) (map (stamp(k := Suc t)) (map fst (?rest @ [(k, v)])))"
    using s1 s2 by (simp add: sorted_wrt_append same)
  have bound': "\<forall>k' \<in> fst ` set (?rest @ [(k, v)]). (stamp(k := Suc t)) k' \<le> Suc t"
    using bound by (auto simp: le_Suc_eq)
  show ?thesis
    unfolding lru_inv_def using cap len' dist' srt' bound' by simp
qed

lemma append_new_inv:
  assumes cap: "lru_capacity c = C" and len: "int (length od) < C"
    and dist: "distinct (map fst od)"
    and srt: "sorted_wrt (<) (map stamp (map fst od))"
    and bound: "\<forall>kv \<in> set od. stamp (fst kv) \<le> t"
    and new: "k \<notin> fst ` set od"
  shows "lru_inv C (Suc t) (stamp(k := Suc t)) (c\<lparr>cache := od @ [(k, v)]\<rparr>)"
proof -
  have same: "map (stamp(k := Suc t) \<circ> fst) od = map (stamp \<circ> fst) od"
    using new by (auto simp: image_iff)
  have s2: "\<forall>kv \<in> set od. stamp (fst kv) < Suc t"
    using bound by (auto simp: less_Suc_eq_le)
  have "sorted_wrt (<) (map (stamp(k := Suc t)) (map fst (od @ [(k, v)])))"
    using srt s2 by (simp add: sorted_wrt_append same)
  moreover have "\<forall>k' \<in> fst ` set (od @ [(k, v)]). (stamp(k := Suc t)) k' \<le> Suc t"
    using bound by (auto simp: le_Suc_eq)
  moreover have "distinct (map fst (od @ [(k, v)]))"
    using dist new by simp
  ultimately show ?thesis
    unfolding lru_inv_def using cap len by simp
qed

lemma touch_new_inv:
  assumes inv: "lru_inv C t stamp c" and k: "map_of (cache c) k = None" and C: "1 \<le> C"
  shows "\<exists>c'. put k v c = Inr c' \<and> lru_inv C (Suc t) (stamp(k := Suc t)) c'
           \<and> cache c' =
               (if int (length (cache c)) \<ge> C then tl (cache c) else cache c) @ [(k, v)]
           \<and> eviction_count c' =
               eviction_count c + (if int (length (cache c)) \<ge> C then 1 else 0)"
proof -
  from inv have cap: "lru_capacity c = C" and len: "int (length (cache c)) \<le> C"
    and dist: "distinct (map fst (cache c))"
    and srt: "sorted_wrt (<) (map stamp (map fst (cache c)))"
    and bound: "\<forall>kv \<in> set (cache c). stamp (fst kv) \<le> t"
    by (auto simp: lru_inv_def)
  from k have new: "k \<notin> fst ` set (cache c)"
    by (simp add: map_of_eq_None_iff)
  show ?thesis
  proof (cases "int (length (cache c)) \<ge> C")
    case False
    then have room: "int (length (cache c)) < lru_capacity c" using cap by simp
    have "lru_inv C (Suc t) (stamp(k := Suc t)) (c\<lparr>cache := cache c @ [(k, v)]\<rparr>)"
      using cap room dist srt bound new by (intro append_new_inv) simp_all
    with False show ?thesis
      using put_new_room [OF k room, of v] by simp
  next
    case True
    with C obtain kv rest where od: "cache c = kv # rest"
      by (cases "cache c") auto
    have full: "int (length (cache c)) \<ge> lru_capacity c" using True cap by simp
    let ?c1 = "c\<lparr>eviction_count := eviction_count c + 1\<rparr>"
    have "lru_inv C (Suc t) (stamp(k := Suc t)) (?c1\<lparr>cache := rest @ [(k, v)]\<rparr>)"
    proof (intro append_new_inv)
      show "lru_capacity ?c1 = C" using cap by simp
      show "int (length rest) < C" using len od by simp
      show "distinct (map fst rest)" using dist od by simp
      show "sorted_wrt (<) (map stamp (map fst rest))" using srt od by simp
      show "\<forall>kv \<in> set rest. stamp (fst kv) \<le> t" using bound od by simp
      show "k \<notin> fst ` set rest" using new od by simp
    qed
    moreover have "?c1\<lparr>cache := rest @ [(k, v)]\<rparr>
        = c\<lparr>cache := rest @ [(k, v)], eviction_count := eviction_count c + 1\<rparr>"
      by simp
    ultimately show ?thesis
      using put_new_full [OF k full od, of v] True od by simp
  qed
qed

lemma cache_step_inv:
  assumes inv: "lru_inv C t stamp c" and C: "1 \<le> C"
  shows "\<exists>c'. cache_step opn c = Inr c'
           \<and> lru_inv C (Suc t)
               (case touched_key opn c of None \<Rightarrow> stamp | Some k \<Rightarrow> stamp(k := Suc t)) c'"
proof (cases opn)
  case (Get k)
  show ?thesis
  proof (cases "map_of (cache c) k")
    case None
    have "lru_inv C (Suc t) stamp
        (c\<lparr>access_count := access_count c + 1, miss_count := miss_count c + 1\<rparr>)"
      using inv by (auto simp: lru_inv_def le_Suc_eq)
    then show ?thesis
      using Get None get_miss [OF None] by simp
  next
    case (Some v)
    have "lru_inv C (Suc t) (stamp(k := Suc t))
        (c\<lparr>cache := filter (\<lambda>kv. fst kv \<noteq> k) (cache c) @ [(k, v)]\<rparr>)"
      using inv Some by (rule touch_stored_inv)
    then have "lru_inv C (Suc t) (stamp(k := Suc t))
        (c\<lparr>access_count := access_count c + 1,
           cache := filter (\<lambda>kv. fst kv \<noteq> k) (cache c) @ [(k, v)],
           hit_count := hit_count c + 1\<rparr>)"
      by (simp add: lru_inv_def)
    then show ?thesis
      using Get Some get_hit [OF Some] by simp
  qed
next
  case (Put k v)
  show ?thesis
  proof (cases "map_of (cache c) k")
    case None
    then show ?thesis
      using Put touch_new_inv [OF inv None C, of v] by auto
  next
    case (Some old)
    then show ?thesis
      using Put put_existing [OF Some, of v] touch_stored_inv [OF inv Some, of v] by simp
  qed
qed

lemma cache_run_inv:
  assumes "lru_inv C t stamp c" and "1 \<le> C"
  shows "\<exists>c'. cache_run ops c = Inr c'
           \<and> lru_inv C (t + length ops) (last_touch ops t stamp c) c'"
  using assms
proof (induction ops arbitrary: t stamp c)
  case Nil
  then show ?case by simp
next
  case (Cons opn ops)
  let ?stamp = "case touched_key opn c of None \<Rightarrow> stamp | Some k \<Rightarrow> stamp(k := Suc t)"
  obtain c1 where s: "cache_step opn c = Inr c1" and i1: "lru_inv C (Suc t) ?stamp c1"
    using cache_step_inv [OF Cons.prems, of opn] by blast
  obtain c' where r: "cache_run ops c1 = Inr c'"
    and i2: "lru_inv C (Suc t + length ops) (last_touch ops (Suc t) ?stamp c1) c'"
    using Cons.IH [OF i1 Cons.prems(2)] by blast
  show ?case
    using s r i2 by simp
qed

lemma lru_inv_init: "0 \<le> C \<Longrightarrow> lru_inv C 0 (\<lambda>k. 0) (LRUCache_init C)"
  by (simp add: lru_inv_def LRUCache_init_def)

text \<open>A stored key outlives new insertions as long as there is room behind it.\<close>

lemma survives_new_insertions:
  assumes "1 \<le> C" and "lru_capacity c = C" and "int (length (cache c)) \<le> C"
    and "cache c = pre @ (k, v0) # post" and "k \<notin> fst ` set pre"
    and "distinct (map fst kvs)"
    and "\<forall>kv \<in> set kvs. fst kv \<notin> fst ` set (cache c)"
    and "int (length post) + int (length kvs) \<le> C - 1"
  shows "\<exists>c2 pre' post'. cache_run (map (\<lambda>kv. Put (fst kv) (snd kv)) kvs) c = Inr c2
           \<and> cache c2 = pre' @ (k, v0) # post' \<and> k \<notin> fst ` set pre'"
  using assms
proof (induction kvs arbitrary: c pre post)
  case Nil
  then show ?case by auto
next
  case (Cons kv kvs)
  obtain k1 v1 where kv: "kv = (k1, v1)" by (cases kv)
  from Cons.prems(7) kv have new1: "map_of (cache c) k1 = None"
    by (simp add: map_of_eq_None_iff)
  from Cons.prems(6) kv have dk: "distinct (map fst kvs)" and k1rest: "k1 \<notin> fst ` set kvs"
    by simp_all
  from Cons.prems(7) have newrest: "\<forall>kv \<in> set kvs. fst kv \<notin> fst ` set (cache c)"
    by simp
  from Cons.prems(8) have room: "int (length post) + 1 + int (length kvs) \<le> C - 1"
    by simp
  show ?case
  proof (cases "int (length (cache c)) \<ge> C")
    case False
    then have lt: "int (length (cache c)) < lru_capacity c"
      using Cons.prems(2) by simp
    let ?c1 = "c\<lparr>cache := cache c @ [(k1, v1)]\<rparr>"
    have p: "put k1 v1 c = Inr ?c1"
      using put_new_room [OF new1 lt] .
    have "\<exists>c2 pre' post'. cache_run (map (\<lambda>kv. Put (fst kv) (snd kv)) kvs) ?c1 = Inr c2
           \<and> cache c2 = pre' @ (k, v0) # post' \<and> k \<notin> fst ` set pre'"
    proof (rule Cons.IH [where pre = pre and post = "post @ [(k1, v1)]"])
      show "1 \<le> C" by fact
      show "lru_capacity ?c1 = C" using Cons.prems(2) by simp
      show "int (length (cache ?c1)) \<le> C" using False by simp
      show "cache ?c1 = pre @ (k, v0) # post @ [(k1, v1)]" using Cons.prems(4) by simp
      show "k \<notin> fst ` set pre" by fact
      show "distinct (map fst kvs)" by fact
      show "\<forall>kv \<in> set kvs. fst kv \<notin> fst ` set (cache ?c1)"
        using newrest k1rest by auto
      show "int (length (post @ [(k1, v1)])) + int (length kvs) \<le> C - 1"
        using room by simp
    qed
    then show ?thesis using p kv by simp
  next
    case True
    with Cons.prems(3) have full: "int (length (cache c)) = C" by simp
    with Cons.prems(4) room have "pre \<noteq> []" by auto
    then obtain p pre2 where pre: "pre = p # pre2" by (cases pre) auto
    let ?c1 = "c\<lparr>cache := (pre2 @ (k, v0) # post) @ [(k1, v1)],
                   eviction_count := eviction_count c + 1\<rparr>"
    have ge: "int (length (cache c)) \<ge> lru_capacity c"
      using True Cons.prems(2) by simp
    have od: "cache c = p # (pre2 @ (k, v0) # post)"
      using Cons.prems(4) pre by simp
    have p: "put k1 v1 c = Inr ?c1"
      using put_new_full [OF new1 ge od] .
    have "\<exists>c2 pre' post'. cache_run (map (\<lambda>kv. Put (fst kv) (snd kv)) kvs) ?c1 = Inr c2
           \<and> cache c2 = pre' @ (k, v0) # post' \<and> k \<notin> fst ` set pre'"
    proof (rule Cons.IH [where pre = pre2 and post = "post @ [(k1, v1)]"])
      show "1 \<le> C" by fact
      show "lru_capacity ?c1 = C" using Cons.prems(2) by simp
      show "int (length (cache ?c1)) \<le> C" using full od by simp
      show "cache ?c1 = pre2 @ (k, v0) # post @ [(k1, v1)]" by simp
      show "k \<notin> fst ` set pre2" using Cons.prems(5) pre by simp
      show "distinct (map fst kvs)" by fact
      show "\<forall>kv \<in> set kvs. fst kv \<notin> fst ` set (cache ?c1)"
        using newrest k1rest od by auto
      show "int (length (post @ [(k1, v1)])) + int (length kvs) \<le> C - 1"
        using room by simp
    qed
    then show ?thesis using p kv by simp
  qed
qed

lemma survives_after_get:
  assumes C: "1 \<le> C" and cap: "lru_capacity c = C" and len: "int (length (cache c)) \<le> C"
    and dist: "distinct (map fst (cache c))"
    and k: "map_of (cache c) k = Some old"
    and dk: "distinct (map fst kvs)"
    and new: "\<forall>kv \<in> set kvs. map_of (cache c) (fst kv) = None"
    and few: "int (length kvs) \<le> C - 1"
  shows "\<exists>c1 c2. get k c = Inr (Some old, c1)
           \<and> cache_run (map (\<lambda>kv. Put (fst kv) (snd kv)) kvs) c1 = Inr c2
           \<and> map_of (cache c2) k = Some old"
proof -
  let ?pre = "filter (\<lambda>kv. fst kv \<noteq> k) (cache c)"
  let ?c1 = "c\<lparr>access_count := access_count c + 1,
       cache := ?pre @ [(k, old)], hit_count := hit_count c + 1\<rparr>"
  have g: "get k c = Inr (Some old, ?c1)" by (rule get_hit [OF k])
  from k have kin: "(k, old) \<in> set (cache c)" by (rule map_of_SomeD)
  have "length ?pre < length (cache c)"
    using kin by (intro length_filter_less [of "(k, old)"]) simp_all
  then have len1: "int (length (cache ?c1)) \<le> C" using len by simp
  have notin: "k \<notin> fst ` set ?pre" by auto
  have new1: "\<forall>kv \<in> set kvs. fst kv \<notin> fst ` set (cache ?c1)"
  proof
    fix kv assume "kv \<in> set kvs"
    with new have "map_of (cache c) (fst kv) = None" by simp
    then have a: "fst kv \<notin> fst ` set (cache c)" by (simp add: map_of_eq_None_iff)
    moreover from kin have "k \<in> fst ` set (cache c)" by force
    ultimately have "fst kv \<noteq> k" by auto
    with a show "fst kv \<notin> fst ` set (cache ?c1)" by auto
  qed
  obtain c2 pre' post' where
    r: "cache_run (map (\<lambda>kv. Put (fst kv) (snd kv)) kvs) ?c1 = Inr c2"
    and shape: "cache c2 = pre' @ (k, old) # post'" and np: "k \<notin> fst ` set pre'"
    using survives_new_insertions [where c = ?c1 and pre = ?pre and post = "[]" and C = C
        and k = k and ?v0.0 = old and kvs = kvs]
      C cap len1 notin dk new1 few
    by auto
  from np have "map_of pre' k = None" by (simp add: map_of_eq_None_iff)
  then have "map_of (cache c2) k = Some old"
    using shape by (simp add: map_add_def)
  with g r show ?thesis by blast
qed

lemma evicts_least_recent:
  assumes inv: "lru_inv C t stamp c" and C: "1 \<le> C"
    and k: "map_of (cache c) k = None" and full: "int (length (cache c)) = C"
  shows "\<exists>e w rest c'. cache c = (e, w) # rest \<and> put k v c = Inr c'
           \<and> cache c' = rest @ [(k, v)]
           \<and> eviction_count c' = eviction_count c + 1
           \<and> (\<forall>k' \<in> fst ` set rest. stamp e < stamp k')"
proof -
  from full C obtain e w rest where od: "cache c = (e, w) # rest"
    by (cases "cache c") auto
  from inv have cap: "lru_capacity c = C"
    and srt: "sorted_wrt (<) (map stamp (map fst (cache c)))"
    by (simp_all add: lru_inv_def)
  have ge: "int (length (cache c)) \<ge> lru_capacity c" using full cap by simp
  have "put k v c = Inr (c\<lparr>cache := rest @ [(k, v)], eviction_count := eviction_count c + 1\<rparr>)"
    using put_new_full [OF k ge od] .
  moreover have "\<forall>k' \<in> fst ` set rest. stamp e < stamp k'"
    using srt od by auto
  ultimately show ?thesis using od by simp
qed

text \<open>
  Claim C3. For every sequence of \<^verbatim>\<open>put\<close> and \<^verbatim>\<open>get\<close> calls on a fresh cache of
  capacity \<open>C\<close> of at least 1, every call succeeds and the cache reached stores at
  most \<open>C\<close> keys, each once. In the cache reached: a \<^verbatim>\<open>put\<close> of a new key when
  \<open>C\<close> keys are stored evicts exactly one key (the eviction counter grows by one and
  the first item of the dictionary goes), and the last touch of the evicted key is
  earlier than the last touch of every other stored key; a \<^verbatim>\<open>get\<close> of a stored key
  and a \<^verbatim>\<open>put\<close> of a stored key move that key to the most-recently-used end without
  an eviction; and after a \<^verbatim>\<open>get\<close> hit on a stored key, up to \<open>C - 1\<close> insertions of
  new keys leave that key stored with its value, so that it can be evicted only after
  at least \<open>C - 1\<close> other new insertions.
\<close>

theorem lru_bounded_eviction:
  assumes C: "1 \<le> C"
  shows "\<exists>c. cache_run ops (LRUCache_init C) = Inr c
           \<and> int (length (cache c)) \<le> C
           \<and> distinct (map fst (cache c))
           \<and> (\<forall>k v. map_of (cache c) k = None \<and> int (length (cache c)) = C \<longrightarrow>
                 (\<exists>e w rest c'. cache c = (e, w) # rest \<and> put k v c = Inr c'
                    \<and> cache c' = rest @ [(k, v)]
                    \<and> eviction_count c' = eviction_count c + 1
                    \<and> (\<forall>k' \<in> fst ` set rest.
                          last_touch ops 0 (\<lambda>k. 0) (LRUCache_init C) e
                            < last_touch ops 0 (\<lambda>k. 0) (LRUCache_init C) k')))
           \<and> (\<forall>k old v. map_of (cache c) k = Some old \<longrightarrow>
                 get k c = Inr (Some old,
                   c\<lparr>access_count := access_count c + 1,
                     cache := filter (\<lambda>kv. fst kv \<noteq> k) (cache c) @ [(k, old)],
                     hit_count := hit_count c + 1\<rparr>)
                 \<and> put k v c =
                     Inr (c\<lparr>cache := filter (\<lambda>kv. fst kv \<noteq> k) (cache c) @ [(k, v)]\<rparr>))
           \<and> (\<forall>k old kvs. map_of (cache c) k = Some old \<and> distinct (map fst kvs)
                   \<and> (\<forall>kv \<in> set kvs. map_of (cache c) (fst kv) = None)
                   \<and> int (length kvs) \<le> C - 1 \<longrightarrow>
                 (\<exists>c1 c2. get k c = Inr (Some old, c1)
                    \<and> cache_run (map (\<lambda>kv. Put (fst kv) (snd kv)) kvs) c1 = Inr c2
                    \<and> map_of (cache c2) k = Some old))"
proof -
  let ?init = "LRUCache_init C :: ('a, 'b) LRUCache"
  let ?stamp = "last_touch ops 0 (\<lambda>k. 0) ?init"
  have "lru_inv C 0 (\<lambda>k. 0) ?init"
    using C by (intro lru_inv_init) simp
  then obtain c where run: "cache_run ops ?init = Inr c"
    and inv: "lru_inv C (0 + length ops) ?stamp c"
    using cache_run_inv [OF _ C, of 0 "\<lambda>k. 0" ?init ops] by blast
  from inv have cap: "lru_capacity c = C" and len: "int (length (cache c)) \<le> C"
    and dist: "distinct (map fst (cache c))"
    by (simp_all add: lru_inv_def)
  have evict: "\<exists>e w rest c'. cache c = (e, w) # rest \<and> put k v c = Inr c'
                    \<and> cache c' = rest @ [(k, v)]
                    \<and> eviction_count c' = eviction_count c + 1
                    \<and> (\<forall>k' \<in> fst ` set rest. ?stamp e < ?stamp k')"
    if "map_of (cache c) k = None" and "int (length (cache c)) = C" for k v
    using evicts_least_recent [OF inv C that] .
  have promote: "get k c = Inr (Some old,
                   c\<lparr>access_count := access_count c + 1,
                     cache := filter (\<lambda>kv. fst kv \<noteq> k) (cache c) @ [(k, old)],
                     hit_count := hit_count c + 1\<rparr>)
                 \<and> put k v c =
                     Inr (c\<lparr>cache := filter (\<lambda>kv. fst kv \<noteq> k) (cache c) @ [(k, v)]\<rparr>)"
    if "map_of (cache c) k = Some old" for k old v
    using get_hit [OF that] put_existing [OF that] by simp
  have survive: "\<exists>c1 c2. get k c = Inr (Some old, c1)
                    \<and> cache_run (map (\<lambda>kv. Put (fst kv) (snd kv)) kvs) c1 = Inr c2
                    \<and> map_of (cache c2) k = Some old"
    if "map_of (cache c) k = Some old" and "distinct (map fst kvs)"
      and "\<forall>kv \<in> set kvs. map_of (cache c) (fst kv) = None"
      and "int (length kvs) \<le> C - 1" for k old kvs
    using survives_after_get [OF C cap len dist that] .
  have P2: "\<forall>k v. map_of (cache c) k = None \<and> int (length (cache c)) = C \<longrightarrow>
                 (\<exists>e w rest c'. cache c = (e, w) # rest \<and> put k v c = Inr c'
                    \<and> cache c' = rest @ [(k, v)]
                    \<and> eviction_count c' = eviction_count c + 1
                    \<and> (\<forall>k' \<in> fst ` set rest. ?stamp e < ?stamp k'))"
    using evict by simp
  have P3: "\<forall>k old v. map_of (cache c) k = Some old \<longrightarrow>
                 get k c = Inr (Some old,
                   c\<lparr>access_count := access_count c + 1,
                     cache := filter (\<lambda>kv. fst kv \<noteq> k) (cache c) @ [(k, old)],
                     hit_count := hit_count c + 1\<rparr>)
                 \<and> put k v c =
                     Inr (c\<lparr>cache := filter (\<lambda>kv. fst kv \<noteq> k) (cache c) @ [(k, v)]\<rparr>)"
    using promote by simp
  have P4: "\<forall>k old kvs. map_of (cache c) k = Some old \<and> distinct (map fst kvs)
                   \<and> (\<forall>kv \<in> set kvs. map_of (cache c) (fst kv) = None)
                   \<and> int (length kvs) \<le> C - 1 \<longrightarrow>
                 (\<exists>c1 c2. get k c = Inr (Some old, c1)
                    \<and> cache_run (map (\<lambda>kv. Put (fst kv) (snd kv)) kvs) c1 = Inr c2
                    \<and> map_of (cache c2) k = Some old)"
    using survive by simp
  show ?thesis
    by (rule exI [of _ c]) (intro conjI run len dist P2 P3 P4)
qed

theorem lru_bounded_eviction_witness:
  "cache_run [Put 1 ''a'', Put 2 ''b'', Get 1, Put 3 ''c''] (LRUCache_init 2) =
     Inr \<lparr>lru_capacity = 2, cache = [(1 :: nat, ''a''), (3, ''c'')], hit_count = 1,
          miss_count = 0, eviction_count = 1, access_count = 1\<rparr>"
  using lru_bounded_eviction [of 2 "[Put (1 :: nat) ''a'', Put 2 ''b'', Get 1, Put 3 ''c'']"]
  by (simp add: LRUCache_init_def get_def put_def move_to_end_def popitem_first_def
      od_setitem_def Let_def)

section \<open>Construction with a capacity out of range\<close>

text \<open>
  Claim C8 as stated fails: constructing a ring buffer or a cache with capacity zero
  succeeds and gives an object; the failure comes later, inside the first
  \<^verbatim>\<open>write\<close> (\<^verbatim>\<open>ZeroDivisionError\<close>) and the first \<^verbatim>\<open>put\<close> (\<^verbatim>\<open>KeyError\<close>).
\<close>

theorem zero_capacity_counterexample:
  "CircularFrameBuffer_init 0 =
     \<lparr>capacity = 0, buffer = ([] :: nat option list), head = 0, tail = 0, count = 0,
      write_count = 0, read_count = 0, overflow_count = 0\<rparr>
   \<and> write_frame (7 :: nat) (CircularFrameBuffer_init 0) = Inl ZeroDivisionError
   \<and> LRUCache_init 0 =
     \<lparr>lru_capacity = 0, cache = ([] :: (nat \<times> string) list), hit_count = 0, miss_count = 0,
      eviction_count = 0, access_count = 0\<rparr>
   \<and> put (1 :: nat) ''a'' (LRUCache_init 0) = Inl KeyError"
  by (simp add: CircularFrameBuffer_init_def write_frame_def py_mod_def LRUCache_init_def
      put_def popitem_first_def)

text \<open>
  Claim C8, amended. Constructing a ring buffer or a cache with a capacity of zero or
  less does not fail: the constructor stores the capacity unchecked and the object has
  no slots. The error comes later, inside an operation: the first \<^verbatim>\<open>write\<close> raises
  \<^verbatim>\<open>ZeroDivisionError\<close> for capacity zero and \<^verbatim>\<open>IndexError\<close> for a negative capacity,
  and the first \<^verbatim>\<open>put\<close> raises \<^verbatim>\<open>KeyError\<close>; \<^verbatim>\<open>read\<close> and \<^verbatim>\<open>get\<close> on the fresh
  object return nothing without an error.
\<close>

theorem nonpositive_capacity_fails_late:
  assumes "N \<le> 0"
  shows "CircularFrameBuffer_init N =
           \<lparr>capacity = N, buffer = [], head = 0, tail = 0, count = 0,
            write_count = 0, read_count = 0, overflow_count = 0\<rparr>
       \<and> write_frame x (CircularFrameBuffer_init N) =
           Inl (if N = 0 then ZeroDivisionError else IndexError)
       \<and> read (CircularFrameBuffer_init N :: 'a CircularFrameBuffer) =
           Inr (None, CircularFrameBuffer_init N)
       \<and> LRUCache_init N =
           \<lparr>lru_capacity = N, cache = [], hit_count = 0, miss_count = 0,
            eviction_count = 0, access_count = 0\<rparr>
       \<and> put k v (LRUCache_init N) = Inl KeyError
       \<and> (\<exists>c. get k (LRUCache_init N :: ('k, 'v) LRUCache) = Inr (None, c))"
  using assms
  by (simp add: CircularFrameBuffer_init_def write_frame_def read_def py_mod_def py_setitem_def
      py_index_def
      LRUCache_init_def put_def get_def popitem_first_def Let_def)

theorem nonpositive_capacity_fails_late_witness:
  "(-1 :: int) \<le> 0
   \<and> write_frame (7 :: nat) (CircularFrameBuffer_init (-1)) = Inl IndexError
   \<and> put (1 :: nat) ''a'' (LRUCache_init (-1)) = Inl KeyError"
proof -
  have le: "(-1 :: int) \<le> 0" by simp
  note late = nonpositive_capacity_fails_late [OF le, of "7 :: nat" "1 :: nat" "''a''"]
  have "write_frame (7 :: nat) (CircularFrameBuffer_init (-1)) = Inl IndexError"
    using late [THEN conjunct2, THEN conjunct1] by simp
  moreover have "put (1 :: nat) ''a'' (LRUCache_init (-1)) = Inl KeyError"
    using late by blast
  ultimately show ?thesis
    using le by blast
qed

end
